theory Spec2Isabelle
  imports Complex_Main
begin

section \<open>Data model\<close>

text \<open>
  Scores and probabilities are modelled as exact rationals; the source computes them
  in double precision.  A row of \<open>predict_proba\<close> is the pair
  \<open>(P(label = 0), P(label = 1))\<close>, the two columns scikit-learn returns for a binary
  estimator.  An estimator is a function of one augmented row (the features followed by
  the labels already decided, as 0/1): \<open>predict_proba\<close> works row by row.
\<close>

type_synonym row = "rat list"
type_synonym proba = "rat \<times> rat"
type_synonym estimator = "row \<Rightarrow> proba"

text \<open>The fitted scikit-learn chain: \<open>estimators_\<close> and \<open>order_\<close>.\<close>

record chain =
  estimators :: "estimator list"
  order :: "nat list"

datatype error =
  AssertionError | TypeError | ValueError | KeyError | ZeroDivisionError | Exception

text \<open>\<open>BaseInferer\<close> holds the chain and the loss; a subclass adds its own fields.\<close>

record base_inferer =
  cc :: chain
  loss :: string

record eps_inferer = base_inferer +
  epsilon :: rat

text \<open>
  The private fields \<open>__best_pred\<close>, \<open>__best_p\<close> and \<open>__n_nodes\<close> that
  \<open>EpsilonApproximationInferer\<close> mutates during a search.
\<close>

record search_state =
  best_pred :: "bool list list"
  best_p :: "rat list"
  n_nodes :: rat

text \<open>A value of a Python tuple returned by \<open>infer\<close>: a boolean matrix or a float.\<close>

datatype pyobj = Matrix "bool list list" | Float rat

section \<open>numpy operations on arrays\<close>

text \<open>\<open>np.count_nonzero(mask)\<close>.\<close>

definition count_nonzero :: "bool list \<Rightarrow> nat" where
  "count_nonzero msk = length (filter (\<lambda>m. m) msk)"

text \<open>Boolean indexing \<open>xs[mask]\<close>: the entries of \<open>xs\<close> where the mask is set.\<close>

fun bool_index :: "'a list \<Rightarrow> bool list \<Rightarrow> 'a list" where
  "bool_index (x # xs) (m # ms) = (if m then x # bool_index xs ms else bool_index xs ms)"
| "bool_index _ _ = []"

text \<open>
  Boolean-indexed assignment \<open>xs[mask] = vs\<close>: the entries where the mask is set are
  replaced, in order, by the values \<open>vs\<close>.  numpy raises when the number of values is
  not the number of set entries; every call below passes exactly that many, and the
  model leaves the remaining entries as they are.
\<close>

fun bool_assign :: "'a list \<Rightarrow> bool list \<Rightarrow> 'a list \<Rightarrow> 'a list" where
  "bool_assign (x # xs) (True # ms) (v # vs) = v # bool_assign xs ms vs"
| "bool_assign (x # xs) (False # ms) vs = x # bool_assign xs ms vs"
| "bool_assign xs _ _ = xs"

text \<open>\<open>cur_pred[mask, i] = k\<close>: column \<open>i\<close> of the selected rows.\<close>

definition col_assign :: "bool list list \<Rightarrow> bool list \<Rightarrow> nat \<Rightarrow> bool list \<Rightarrow> bool list list" where
  "col_assign cur_pred msk i k =
     bool_assign cur_pred msk (map2 (\<lambda>r b. r[i := b]) (bool_index cur_pred msk) k)"

text \<open>
  \<open>np.hstack((x, pred[:, :i]))\<close>: each feature row followed by its first \<open>i\<close> labels.
\<close>

definition hstack :: "row list \<Rightarrow> bool list list \<Rightarrow> nat \<Rightarrow> row list" where
  "hstack x pred i = map2 (\<lambda>xr pr. xr @ map of_bool (take i pr)) x pred"

text \<open>
  \<open>np.max\<close>, \<open>np.min\<close>, \<open>np.argmax\<close> and \<open>np.argmin\<close> along axis 1 of a two-column
  array; \<open>argmax\<close> and \<open>argmin\<close> return the first index on a tie, and the result is
  cast to bool.
\<close>

definition np_max :: "proba list \<Rightarrow> rat list" where
  "np_max proba = map (\<lambda>(p0, p1). max p0 p1) proba"

definition np_min :: "proba list \<Rightarrow> rat list" where
  "np_min proba = map (\<lambda>(p0, p1). min p0 p1) proba"

definition np_argmax :: "proba list \<Rightarrow> bool list" where
  "np_argmax proba = map (\<lambda>(p0, p1). p0 < p1) proba"

definition np_argmin :: "proba list \<Rightarrow> bool list" where
  "np_argmin proba = map (\<lambda>(p0, p1). p1 < p0) proba"

text \<open>\<open>np.take_along_axis(proba, pred[:, i].astype(int).reshape(-1, 1), axis=1).flatten()\<close>.\<close>

definition take_along :: "proba list \<Rightarrow> bool list list \<Rightarrow> nat \<Rightarrow> rat list" where
  "take_along proba pred i = map2 (\<lambda>(p0, p1) pr. if pr ! i then p1 else p0) proba pred"

section \<open>BaseInferer\<close>

definition BaseInferer_init :: "chain \<Rightarrow> string \<Rightarrow> error + base_inferer" where
  "BaseInferer_init c l =
     (if l = ''exact_match'' \<or> l = ''hamming'' then Inr \<lparr>cc = c, loss = l\<rparr>
      else Inl AssertionError)"

definition new_score :: "'a base_inferer_scheme \<Rightarrow> rat list \<Rightarrow> rat list \<Rightarrow> rat list" where
  "new_score self past_score new_proba =
     (if loss self = ''exact_match'' then map2 (*) past_score new_proba
      else map2 (+) past_score new_proba)"

definition calculate_reward :: "'a base_inferer_scheme \<Rightarrow> row list \<Rightarrow> bool list list \<Rightarrow> rat" where
  "calculate_reward self x pred =
     (let reward0 = (if loss self = ''exact_match'' then replicate (length x) 1
                     else replicate (length x) 0);
          reward = fold (\<lambda>i reward.
                      let x_aug = hstack x pred i;
                          proba = map (estimators (cc self) ! i) x_aug
                      in new_score self reward (take_along proba pred i))
                    [0 ..< length (estimators (cc self))] reward0
      in sum_list reward / of_nat (length reward))"

text \<open>
  \<open>__fix_order\<close>.  \<open>inv_order\<close> starts as \<open>np.empty_like(order_)\<close>, whose content is
  whatever the memory holds, and \<open>inv_order[order_] = np.arange(len(order_))\<close> then
  writes \<open>j\<close> into cell \<open>order_[j]\<close>.  \<open>inv_order_from init ord\<close> is the array after
  that assignment when it started as \<open>init\<close>, and \<open>fix_order_from uninit\<close> is the
  method when \<open>np.empty_like\<close> returned \<open>uninit\<close>.  scikit-learn fits the chain with
  \<open>order_\<close> a permutation of \<open>range(d)\<close>; every cell is then overwritten and the
  starting content does not matter (lemmas \<open>inv_order_from_init\<close> and
  \<open>fix_order_from_eq\<close>), so \<open>fix_order\<close> starts from zeros.
\<close>

definition inv_order_from :: "nat list \<Rightarrow> nat list \<Rightarrow> nat list" where
  "inv_order_from init ord = fold (\<lambda>j inv. inv[ord ! j := j]) [0 ..< length ord] init"

definition fix_order_from ::
  "nat list \<Rightarrow> 'a base_inferer_scheme \<Rightarrow> bool list list \<Rightarrow> bool list list" where
  "fix_order_from uninit self pred =
     (let inv_order = inv_order_from uninit (order (cc self))
      in map (\<lambda>pr. map (\<lambda>c. pr ! c) inv_order) pred)"

definition fix_order :: "'a base_inferer_scheme \<Rightarrow> bool list list \<Rightarrow> bool list list" where
  "fix_order self pred = fix_order_from (replicate (length (order (cc self))) 0) self pred"

text \<open>
  \<open>BaseInferer.infer\<close>; the virtual method \<open>_infer\<close> is the parameter \<open>infer_virtual\<close>,
  which also returns the state it leaves in the object.  The result is the Python tuple
  \<open>(pred, n_nodes, reward)\<close>.
\<close>

definition infer ::
  "('a base_inferer_scheme \<Rightarrow> 's \<Rightarrow> row list \<Rightarrow> error + ('s \<times> bool list list \<times> rat)) \<Rightarrow>
   'a base_inferer_scheme \<Rightarrow> 's \<Rightarrow> row list \<Rightarrow> error + ('s \<times> pyobj list)" where
  "infer infer_virtual self st x =
     (case infer_virtual self st x of
        Inl e \<Rightarrow> Inl e
      | Inr (st', pred, n) \<Rightarrow>
          let reward = calculate_reward self x pred;
              pred' = fix_order self pred
          in Inr (st', [Matrix pred', Float n, Float reward]))"

section \<open>EpsilonApproximationInferer\<close>

definition EpsilonApproximationInferer_init :: "chain \<Rightarrow> string \<Rightarrow> rat \<Rightarrow> error + eps_inferer" where
  "EpsilonApproximationInferer_init classifier_chain l eps =
     (case BaseInferer_init classifier_chain l of
        Inl e \<Rightarrow> Inl e
      | Inr b \<Rightarrow>
          if 0 \<le> eps \<and> eps \<le> 1 / 2
          then Inr \<lparr>cc = classifier_chain, loss = loss b, epsilon = eps\<rparr>
          else Inl AssertionError)"

text \<open>
  \<open>__dfs\<close>.  \<open>cur_pred\<close> is one array shared by the whole recursion and written in
  place, so it is returned with the state.  \<open>cur_p\<close> holds one score per selected row.
  The method is only entered with \<open>i = 0\<close> and stops at \<open>i = len(estimators_)\<close>; the
  branch \<open>i > len(estimators_)\<close>, where \<open>estimators_[i]\<close> would raise, is never reached.
\<close>

function dfs ::
  "eps_inferer \<Rightarrow> row list \<Rightarrow> search_state \<times> bool list list \<Rightarrow> rat list \<Rightarrow> nat \<Rightarrow> bool list \<Rightarrow>
   search_state \<times> bool list list" where
  "dfs self x (st, cur_pred) cur_p i msk =
     (if i = length (estimators (cc self)) then
        let change = bool_assign msk msk (map2 (\<lambda>p b. b < p) cur_p (bool_index (best_p st) msk))
        in (st\<lparr>best_pred := bool_assign (best_pred st) change (bool_index cur_pred change),
               best_p := bool_assign (best_p st) change (bool_index cur_p (bool_index change msk))\<rparr>,
            cur_pred)
      else if length (estimators (cc self)) < i then (st, cur_pred)
      else
        let x_aug = hstack (bool_index x msk) (bool_index cur_pred msk) i;
            proba = map (estimators (cc self) ! i) x_aug;
            st1 = st\<lparr>n_nodes := n_nodes st + of_nat (count_nonzero msk)\<rparr>;
            proba_max = new_score self cur_p (np_max proba);
            k = np_argmax proba;
            cur_pred1 = col_assign cur_pred msk i k;
            (st2, cur_pred2) = dfs self x (st1, cur_pred1) proba_max (i + 1) msk;
            proba_min = new_score self cur_p (np_min proba);
            condition = map (\<lambda>p. epsilon self \<le> p) proba_min;
            new_msk = bool_assign msk msk condition
        in if count_nonzero new_msk > 0 then
             let k' = np_argmin (bool_index proba condition);
                 cur_pred3 = col_assign cur_pred2 new_msk i k';
                 proba_min' = bool_index proba_min condition
             in dfs self x (st2, cur_pred3) proba_min' (i + 1) new_msk
           else (st2, cur_pred2))"
  by pat_completeness auto
termination
  by (relation "measure (\<lambda>(self, x, s, cur_p, i, msk). length (estimators (cc self)) - i)") auto

declare dfs.simps [simp del]

text \<open>
  \<open>_infer\<close>.  The division \<open>__n_nodes / len(x)\<close> is a division of Python numbers and
  raises on an empty batch (if the estimators have not refused the empty batch before).
\<close>

definition init_search :: "eps_inferer \<Rightarrow> row list \<Rightarrow> search_state" where
  "init_search self x =
     \<lparr>best_pred = replicate (length x) (replicate (length (estimators (cc self))) False),
      best_p = replicate (length x) 0,
      n_nodes = 0\<rparr>"

definition EpsilonApproximationInferer_infer ::
  "eps_inferer \<Rightarrow> search_state \<Rightarrow> row list \<Rightarrow> error + (search_state \<times> bool list list \<times> rat)" where
  "EpsilonApproximationInferer_infer self st x =
     (let cur_pred = replicate (length x) (replicate (length (estimators (cc self))) False);
          cur_p = replicate (length x) 1;
          msk = replicate (length x) True;
          st0 = init_search self x;
          (st1, cur_pred') = dfs self x (st0, cur_pred) cur_p 0 msk
      in if length x = 0 then Inl ZeroDivisionError
         else let st2 = st1\<lparr>n_nodes := n_nodes st1 / of_nat (length x)\<rparr>
              in Inr (st2, best_pred st2, n_nodes st2))"

section \<open>ClassifierChain.predict\<close>

text \<open>
  The keyword arguments are a dictionary from names to Python values; reading a missing
  key raises \<open>KeyError\<close>.
\<close>

datatype pyval = Str string | Num rat | Bool bool

definition getitem :: "(string \<rightharpoonup> pyval) \<Rightarrow> string \<Rightarrow> error + pyval" where
  "getitem kwargs key = (case kwargs key of None \<Rightarrow> Inl KeyError | Some v \<Rightarrow> Inr v)"

definition bind :: "error + 'a \<Rightarrow> ('a \<Rightarrow> error + 'b) \<Rightarrow> error + 'b" where
  "bind m f = (case m of Inl e \<Rightarrow> Inl e | Inr v \<Rightarrow> f v)"

text \<open>
  A call \<open>EpsilonApproximationInferer(classifier_chain, *args)\<close> with positional
  arguments.  \<open>__init__\<close> has the parameters \<open>loss\<close> and \<open>epsilon\<close>, neither with a
  default, so any other number of arguments is a \<open>TypeError\<close> raised before the body
  runs.  A loss that is not a string fails the assertion of \<open>BaseInferer\<close>; an epsilon
  that cannot be compared with a number raises \<open>TypeError\<close> in the second assertion.
\<close>

fun EpsilonApproximationInferer_call :: "chain \<Rightarrow> pyval list \<Rightarrow> error + eps_inferer" where
  "EpsilonApproximationInferer_call c [Str l, Num eps] = EpsilonApproximationInferer_init c l eps"
| "EpsilonApproximationInferer_call c [Str l, Bool b] =
     EpsilonApproximationInferer_init c l (of_bool b)"
| "EpsilonApproximationInferer_call c [Str l, Str e] =
     bind (BaseInferer_init c l) (\<lambda>b. Inl TypeError)"
| "EpsilonApproximationInferer_call c [l, e] = Inl AssertionError"
| "EpsilonApproximationInferer_call c args = Inl TypeError"

text \<open>
  The inferer object built by \<open>predict\<close>: an \<open>EpsilonApproximationInferer\<close> that has not
  searched yet, or an object of one of the classes \<open>ExhaustiveSearchInferer\<close>,
  \<open>BeamSearchInferer\<close> and \<open>MonteCarloInferer\<close>, whose source is not part of this
  development: its \<open>BaseInferer\<close> fields and the rest of it.
\<close>

datatype 'o inferer = Eps eps_inferer | Other base_inferer 'o

definition fresh :: search_state where
  "fresh = \<lparr>best_pred = [], best_p = [], n_nodes = 0\<rparr>"

text \<open>The tuple assignment \<open>pred, num_nodes = t\<close>.\<close>

fun unpack2 :: "pyobj list \<Rightarrow> error + (pyobj \<times> pyobj)" where
  "unpack2 [a, b] = Inr (a, b)"
| "unpack2 t = Inl ValueError"

text \<open>
  \<open>predict\<close>.  Its parameters beyond the source's own stand for code outside this
  development: \<open>other_call name c args\<close> is the constructor call of the class \<open>name\<close>,
  giving the object with its \<open>BaseInferer\<close> fields, \<open>other_infer\<close> the method \<open>_infer\<close>
  of such an object (its \<open>infer\<close> is the one inherited from \<open>BaseInferer\<close>), and
  \<open>sk_predict\<close> scikit-learn's greedy \<open>predict\<close>.
  The result is the list \<open>[pred, num_nodes]\<close>, or \<open>[pred]\<close> when \<open>return_num_nodes\<close> is
  false.
\<close>

definition inferer_infer ::
  "('o \<Rightarrow> row list \<Rightarrow> error + (bool list list \<times> rat)) \<Rightarrow>
   'o inferer \<Rightarrow> row list \<Rightarrow> error + pyobj list" where
  "inferer_infer other_infer inferer x =
     (case inferer of
        Eps self \<Rightarrow> map_sum id snd (infer EpsilonApproximationInferer_infer self fresh x)
      | Other base obj \<Rightarrow>
          map_sum id snd
            (infer (\<lambda>self st x. map_sum id (Pair st) (other_infer obj x)) base () x))"

definition predict ::
  "(string \<Rightarrow> chain \<Rightarrow> pyval list \<Rightarrow> error + (base_inferer \<times> 'o)) \<Rightarrow>
   ('o \<Rightarrow> row list \<Rightarrow> error + (bool list list \<times> rat)) \<Rightarrow>
   (chain \<Rightarrow> row list \<Rightarrow> bool list list) \<Rightarrow>
   chain \<Rightarrow> row list \<Rightarrow> string \<Rightarrow> bool \<Rightarrow> (string \<rightharpoonup> pyval) \<Rightarrow> error + pyobj list" where
  "predict other_call other_infer sk_predict self_cc test_x inference_method return_num_nodes kwargs =
     bind
       (if inference_method = ''greedy'' then
          Inr (Matrix (sk_predict self_cc test_x), Float (of_nat (length (estimators self_cc))))
        else
          bind
            (if inference_method = ''exhaustive_search'' then
               bind (getitem kwargs ''loss'') (\<lambda>l.
                 map_sum id (\<lambda>(b, obj). Other b obj)
                   (other_call ''ExhaustiveSearchInferer'' self_cc [l]))
             else if inference_method = ''epsilon_approximation'' then
               bind (getitem kwargs ''epsilon'') (\<lambda>e.
                 map_sum id Eps (EpsilonApproximationInferer_call self_cc [e]))
             else if inference_method = ''beam_search'' then
               bind (getitem kwargs ''loss'') (\<lambda>l. bind (getitem kwargs ''b'') (\<lambda>b.
                 map_sum id (\<lambda>(b, obj). Other b obj)
                   (other_call ''BeamSearchInferer'' self_cc [l, b])))
             else if inference_method = ''monte_carlo'' then
               bind (getitem kwargs ''loss'') (\<lambda>l. bind (getitem kwargs ''q'') (\<lambda>q.
                 map_sum id (\<lambda>(b, obj). Other b obj)
                   (other_call ''MonteCarloInferer'' self_cc [l, q, Bool False])))
             else if inference_method = ''efficient_monte_carlo'' then
               bind (getitem kwargs ''loss'') (\<lambda>l. bind (getitem kwargs ''q'') (\<lambda>q.
                 map_sum id (\<lambda>(b, obj). Other b obj)
                   (other_call ''MonteCarloInferer'' self_cc [l, q, Bool True])))
             else Inl Exception)
            (\<lambda>inferer. bind (inferer_infer other_infer inferer test_x) unpack2))
       (\<lambda>(pred, num_nodes). if return_num_nodes then Inr [pred, num_nodes] else Inr [pred])"

section \<open>The depth-3 scenario\<close>

text \<open>
  Three deterministic estimators that read the labels decided so far from the end of
  the augmented row: node(0) = [0.7, 0.3], node(1|0) = [0.6, 0.4],
  node(1|1) = [0.2, 0.8], node(2|00) = [0.9, 0.1], node(2|01) = [0.5, 0.5],
  node(2|10) = [0.4, 0.6], node(2|11) = [0.3, 0.7].
\<close>

definition node0 :: estimator where
  "node0 v = (7 / 10, 3 / 10)"

definition node1 :: estimator where
  "node1 v = (case rev v of
                b # _ \<Rightarrow> if b = 0 then (6 / 10, 4 / 10) else (2 / 10, 8 / 10)
              | [] \<Rightarrow> (1 / 2, 1 / 2))"

definition node2 :: estimator where
  "node2 v = (case rev v of
                b # a # _ \<Rightarrow>
                  if a = 0 then (if b = 0 then (9 / 10, 1 / 10) else (5 / 10, 5 / 10))
                  else (if b = 0 then (4 / 10, 6 / 10) else (3 / 10, 7 / 10))
              | _ \<Rightarrow> (1 / 2, 1 / 2))"

definition scenario :: "string \<Rightarrow> rat \<Rightarrow> eps_inferer" where
  "scenario l eps =
     \<lparr>cc = \<lparr>estimators = [node0, node1, node2], order = [0, 1, 2]\<rparr>, loss = l, epsilon = eps\<rparr>"

text \<open>
  A depth-2 chain with a tie at the root: node(0) = [0.5, 0.5], node(1|0) = [0.6, 0.4],
  node(1|1) = [0.1, 0.9].
\<close>

definition tie0 :: estimator where
  "tie0 v = (1 / 2, 1 / 2)"

definition tie1 :: estimator where
  "tie1 v = (case rev v of
               b # _ \<Rightarrow> if b = 0 then (6 / 10, 4 / 10) else (1 / 10, 9 / 10)
             | [] \<Rightarrow> (1 / 2, 1 / 2))"

definition tie_scenario :: "rat \<Rightarrow> eps_inferer" where
  "tie_scenario eps =
     \<lparr>cc = \<lparr>estimators = [tie0, tie1], order = [0, 1]\<rparr>, loss = ''exact_match'', epsilon = eps\<rparr>"

section \<open>The search, row by row\<close>

text \<open>
  Definitions used to reason about \<open>__dfs\<close>: the arrays it handles are read at full
  length, one entry per row of the batch, selected or not.  \<open>merge ms xs ys\<close> takes the
  entry of \<open>ys\<close> where the mask is set and the entry of \<open>xs\<close> elsewhere.
\<close>

definition merge :: "bool list \<Rightarrow> 'a list \<Rightarrow> 'a list \<Rightarrow> 'a list" where
  "merge ms xs ys = map (\<lambda>(m, x, y). if m then y else x) (zip ms (zip xs ys))"

text \<open>\<open>_new_score\<close> on one row, the probabilities of one level for every row, and the
  assignment of column \<open>i\<close> in every row.\<close>

definition score1 :: "'a base_inferer_scheme \<Rightarrow> rat \<Rightarrow> rat \<Rightarrow> rat" where
  "score1 self s q = (if loss self = ''exact_match'' then s * q else s + q)"

definition probas :: "eps_inferer \<Rightarrow> row list \<Rightarrow> bool list list \<Rightarrow> nat \<Rightarrow> proba list" where
  "probas self x cp i =
     map2 (\<lambda>xr pr. (estimators (cc self) ! i) (xr @ map of_bool (take i pr))) x cp"

definition set_col :: "bool list list \<Rightarrow> nat \<Rightarrow> bool list \<Rightarrow> bool list list" where
  "set_col cp i ks = map2 (\<lambda>r b. r[i := b]) cp ks"

text \<open>
  The number of estimator invocations the search spends on one row, from level \<open>i\<close>
  on, when the row has the labels \<open>pref\<close> and the score \<open>s\<close>: the branch of higher
  probability is always followed, the other one when its score reaches epsilon.
\<close>

function nodes_row :: "eps_inferer \<Rightarrow> row \<Rightarrow> bool list \<Rightarrow> rat \<Rightarrow> nat \<Rightarrow> nat" where
  "nodes_row self xr pref s i =
     (if i < length (estimators (cc self)) then
        let (p0, p1) = (estimators (cc self) ! i) (xr @ map of_bool pref);
            smin = score1 self s (min p0 p1)
        in 1 + nodes_row self xr (pref @ [p0 < p1]) (score1 self s (max p0 p1)) (Suc i)
             + (if epsilon self \<le> smin then nodes_row self xr (pref @ [p1 < p0]) smin (Suc i)
                else 0)
      else 0)"
  by pat_completeness auto
termination
  by (relation "measure (\<lambda>(self, xr, pref, s, i). length (estimators (cc self)) - i)") auto

declare nodes_row.simps [simp del]

text \<open>
  The complete paths the search visits for one row, in the order of the visits, each
  with its score; and the update a leaf makes to the row's best score and path: the
  visited path replaces the best one when its score is strictly greater.
\<close>

function leaves_row ::
  "eps_inferer \<Rightarrow> row \<Rightarrow> bool list \<Rightarrow> rat \<Rightarrow> nat \<Rightarrow> (bool list \<times> rat) list" where
  "leaves_row self xr pref s i =
     (if i < length (estimators (cc self)) then
        let (p0, p1) = (estimators (cc self) ! i) (xr @ map of_bool pref);
            smin = score1 self s (min p0 p1)
        in leaves_row self xr (pref @ [p0 < p1]) (score1 self s (max p0 p1)) (Suc i)
           @ (if epsilon self \<le> smin then leaves_row self xr (pref @ [p1 < p0]) smin (Suc i)
              else [])
      else [(pref, s)])"
  by pat_completeness auto
termination
  by (relation "measure (\<lambda>(self, xr, pref, s, i). length (estimators (cc self)) - i)") auto

declare leaves_row.simps [simp del]

definition keep_best :: "rat \<times> bool list \<Rightarrow> bool list \<times> rat \<Rightarrow> rat \<times> bool list" where
  "keep_best b l = (if fst b < snd l then (snd l, fst l) else b)"

section \<open>Evaluation\<close>

lemmas numpy_defs =
  count_nonzero_def col_assign_def hstack_def np_max_def np_min_def np_argmax_def
  np_argmin_def take_along_def

lemmas inferer_defs =
  infer_def EpsilonApproximationInferer_infer_def init_search_def dfs.simps new_score_def
  calculate_reward_def fix_order_def fix_order_from_def inv_order_from_def Let_def

lemmas scenario_defs =
  scenario_def node0_def node1_def node2_def tie_scenario_def tie0_def tie1_def fresh_def

section \<open>Construction\<close>

text \<open>
  C8.  A constructor raises exactly when its assertion fails: \<open>BaseInferer\<close> when the
  loss is neither \<open>exact_match\<close> nor \<open>hamming\<close>, \<open>EpsilonApproximationInferer\<close> when in
  addition epsilon is outside [0, 0.5]; otherwise the object is built with the fields
  given.  Whether the constructor raises does not depend on the chain, so no estimator
  is asked, and a search on a batch with at least one row raises nothing.  (The source
  raises \<open>AssertionError\<close> in both cases.)
\<close>

theorem constructors_raise_iff:
  "isl (BaseInferer_init c l) = (\<not> (l = ''exact_match'' \<or> l = ''hamming''))
   \<and> isl (EpsilonApproximationInferer_init c l eps)
       = (\<not> ((l = ''exact_match'' \<or> l = ''hamming'') \<and> 0 \<le> eps \<and> eps \<le> 1 / 2))
   \<and> BaseInferer_init c l
       = (if isl (BaseInferer_init c l) then Inl AssertionError else Inr \<lparr>cc = c, loss = l\<rparr>)
   \<and> EpsilonApproximationInferer_init c l eps
       = (if isl (EpsilonApproximationInferer_init c l eps) then Inl AssertionError
          else Inr \<lparr>cc = c, loss = l, epsilon = eps\<rparr>)
   \<and> \<not> isl (EpsilonApproximationInferer_infer self st (r # x))"
  by (simp add: BaseInferer_init_def EpsilonApproximationInferer_init_def
      EpsilonApproximationInferer_infer_def Let_def split: prod.splits)

theorem constructors_raise_iff_witness:
  "isl (BaseInferer_init \<lparr>estimators = [], order = []\<rparr> ''brier'')
   \<and> \<not> isl (BaseInferer_init \<lparr>estimators = [], order = []\<rparr> ''hamming'')
   \<and> isl (EpsilonApproximationInferer_init \<lparr>estimators = [], order = []\<rparr> ''hamming'' (3 / 4))
   \<and> \<not> isl (EpsilonApproximationInferer_init \<lparr>estimators = [], order = []\<rparr> ''hamming'' (1 / 4))"
  using constructors_raise_iff [of "\<lparr>estimators = [], order = []\<rparr>" "''brier''" "3 / 4"]
    constructors_raise_iff [of "\<lparr>estimators = [], order = []\<rparr>" "''hamming''" "3 / 4"]
    constructors_raise_iff [of "\<lparr>estimators = [], order = []\<rparr>" "''hamming''" "1 / 4"]
  by simp

section \<open>The entry points\<close>

text \<open>
  C1.  \<open>infer\<close> returns three values, the prediction, the node count and the reward:
  on the depth-3 scenario with epsilon = 0 it returns
  \<open>([[False, False, False]], 7, 0.378)\<close>, and the assignment
  \<open>pred, num_nodes = inferer.infer(ds.test_x)\<close> of \<open>predict\<close> raises \<open>ValueError\<close> on
  such a tuple.  So \<open>predict\<close> with \<open>exhaustive_search\<close> raises \<open>ValueError\<close> whenever
  the constructor and the search of that class succeed.
\<close>

theorem infer_returns_three_values:
  "infer EpsilonApproximationInferer_infer (scenario ''exact_match'' 0) fresh [xr]
     = Inr (\<lparr>best_pred = [[False, False, False]], best_p = [189 / 500], n_nodes = 7\<rparr>,
            [Matrix [[False, False, False]], Float 7, Float (189 / 500)])
   \<and> unpack2 [Matrix [[False, False, False]], Float 7, Float (189 / 500)] = Inl ValueError
   \<and> predict (\<lambda>name c args. Inr (\<lparr>cc = c, loss = ''exact_match''\<rparr>, obj))
        (\<lambda>obj x. Inr (p, n)) sk_predict self_cc test_x ''exhaustive_search'' r
        [''loss'' \<mapsto> Str ''exact_match''] = Inl ValueError"
  by (simp add: inferer_defs numpy_defs scenario_defs predict_def bind_def getitem_def
      inferer_infer_def)

text \<open>
  C3.  \<open>predict\<close> with \<open>epsilon_approximation\<close> and valid options raises \<open>TypeError\<close>:
  it calls the constructor with the chain and epsilon only, without the loss.
\<close>

theorem predict_epsilon_approximation_raises:
  "predict other_call other_infer sk_predict self_cc test_x ''epsilon_approximation'' r
     [''loss'' \<mapsto> Str ''exact_match'', ''epsilon'' \<mapsto> Num (1 / 4)] = Inl TypeError"
  by (simp add: predict_def bind_def getitem_def)

section \<open>The scenarios\<close>

text \<open>
  C4, as stated, fails: on the depth-3 scenario with epsilon = 0.5 the prediction is not
  the path [1, 1, 1].
\<close>

theorem scenario_half_not_all_ones:
  "map_sum id (hd \<circ> snd)
     (infer EpsilonApproximationInferer_infer (scenario ''exact_match'' (1 / 2)) fresh [[0]])
   \<noteq> Inr (Matrix [[True, True, True]])"
  by (simp add: inferer_defs numpy_defs scenario_defs)

text \<open>
  C4, amended.  On the depth-3 scenario under exact-match loss, for every feature row,
  the search with epsilon = 0.5 asks three estimators, one per level (no branch of lower
  probability is expanded), and returns the path [0, 0, 0] with score 0.378; that path
  is the greedy one, the arg-max at each node being label 0.
\<close>

theorem scenario_half_is_greedy:
  "infer EpsilonApproximationInferer_infer (scenario ''exact_match'' (1 / 2)) st [xr]
     = Inr (\<lparr>best_pred = [[False, False, False]], best_p = [189 / 500], n_nodes = 3\<rparr>,
            [Matrix [[False, False, False]], Float 3, Float (189 / 500)])
   \<and> np_argmax [node0 xr] = [False]
   \<and> np_argmax [node1 (xr @ [0])] = [False]
   \<and> np_argmax [node2 (xr @ [0, 0])] = [False]"
  by (simp add: inferer_defs numpy_defs scenario_defs)

text \<open>
  C5, as stated, fails: on the depth-3 scenario with epsilon = 0 the node count reported
  is not 14.
\<close>

theorem scenario_zero_not_fourteen:
  "map_sum id (hd \<circ> tl \<circ> snd)
     (infer EpsilonApproximationInferer_infer (scenario ''exact_match'' 0) fresh [[0]])
   \<noteq> Inr (Float 14)"
  by (simp add: inferer_defs numpy_defs scenario_defs)

text \<open>
  C5, amended.  On the depth-3 scenario under exact-match loss, for every feature row,
  the search with epsilon = 0 returns the path [0, 0, 0] with score 0.378 and reports
  7 visited nodes (1 + 2 + 4, one estimator invocation per internal node); the scores
  of the eight complete paths, by replay, are 0.378, 0.042, 0.14, 0.14, 0.024, 0.036,
  0.072 and 0.168, so the path returned is the product-maximal one.
\<close>

theorem scenario_zero_result:
  "infer EpsilonApproximationInferer_infer (scenario ''exact_match'' 0) st [xr]
     = Inr (\<lparr>best_pred = [[False, False, False]], best_p = [189 / 500], n_nodes = 7\<rparr>,
            [Matrix [[False, False, False]], Float 7, Float (189 / 500)])
   \<and> map (\<lambda>path. calculate_reward (scenario ''exact_match'' 0) [xr] [path])
        [[False, False, False], [False, False, True], [False, True, False],
         [False, True, True], [True, False, False], [True, False, True],
         [True, True, False], [True, True, True]]
       = [189 / 500, 21 / 500, 7 / 50, 7 / 50, 3 / 125, 9 / 250, 9 / 125, 21 / 125]"
  by (simp add: inferer_defs numpy_defs scenario_defs)

text \<open>
  C2.  On the depth-2 chain with a tie at the root and epsilon = 0, both branches of the
  root are labelled 0: the search returns [0, 0] with score 0.3 after 3 estimator
  invocations, although the path [1, 1] scores 0.45.
\<close>

theorem tie_scenario_misses_maximum:
  "infer EpsilonApproximationInferer_infer (tie_scenario 0) st [xr]
     = Inr (\<lparr>best_pred = [[False, False]], best_p = [3 / 10], n_nodes = 3\<rparr>,
            [Matrix [[False, False]], Float 3, Float (3 / 10)])
   \<and> calculate_reward (tie_scenario 0) [xr] [[True, True]] = 9 / 20"
  by (simp add: inferer_defs numpy_defs scenario_defs)

text \<open>
  C6.  Under Hamming loss the search starts its score at 1 where the replay starts at
  0: on the depth-3 scenario with epsilon = 0 the best score kept by the search is 3.2
  and the replayed reward of the same path is 2.2.
\<close>

theorem hamming_score_differs_from_replay:
  "infer EpsilonApproximationInferer_infer (scenario ''hamming'' 0) st [xr]
     = Inr (\<lparr>best_pred = [[False, False, False]], best_p = [16 / 5], n_nodes = 7\<rparr>,
            [Matrix [[False, False, False]], Float 7, Float (11 / 5)])"
  by (simp add: inferer_defs numpy_defs scenario_defs)

section \<open>The inverse order\<close>

lemma length_fold_update [simp]:
  "length (fold (\<lambda>j inv. inv[ord ! j := j]) js init) = length init"
  by (induction js arbitrary: init) auto

lemma fold_update_nth:
  assumes "distinct ord" "k \<le> length ord" "\<forall>j<length ord. ord ! j < length init" "j < k"
  shows "fold (\<lambda>j inv. inv[ord ! j := j]) [0 ..< k] init ! (ord ! j) = j"
  using assms(2,4)
proof (induction k)
  case 0
  then show ?case by simp
next
  case (Suc k)
  show ?case
  proof (cases "j = k")
    case True
    then show ?thesis using Suc.prems assms(3) by simp
  next
    case False
    then have jk: "j < k" using Suc.prems by simp
    have "ord ! j \<noteq> ord ! k"
      using assms(1) Suc.prems jk by (simp add: nth_eq_iff_index_eq)
    then show ?thesis
      using Suc.IH jk Suc.prems by simp
  qed
qed

lemma inv_order_from_init:
  assumes "distinct ord" "set ord = {..<length ord}" "length init = length ord"
  shows "inv_order_from init ord = inv_order_from (replicate (length ord) 0) ord"
proof (rule nth_equalityI)
  show "length (inv_order_from init ord) = length (inv_order_from (replicate (length ord) 0) ord)"
    using assms(3) by (simp add: inv_order_from_def)
next
  fix c assume "c < length (inv_order_from init ord)"
  then have c: "c < length ord"
    using assms(3) by (simp add: inv_order_from_def)
  then have "c \<in> set ord" using assms(2) by simp
  then obtain j where j: "j < length ord" "ord ! j = c"
    by (auto simp: in_set_conv_nth)
  have bound: "\<forall>j<length ord. ord ! j < length ord"
    using assms(2) nth_mem by blast
  have "inv_order_from init ord ! (ord ! j) = j"
    unfolding inv_order_from_def
    by (rule fold_update_nth [OF assms(1) le_refl _ j(1)]) (simp add: assms(3) bound)
  moreover have "inv_order_from (replicate (length ord) 0) ord ! (ord ! j) = j"
    unfolding inv_order_from_def
    by (rule fold_update_nth [OF assms(1) le_refl _ j(1)]) (simp add: bound)
  ultimately show "inv_order_from init ord ! c = inv_order_from (replicate (length ord) 0) ord ! c"
    using j(2) by simp
qed

section \<open>Boolean indexing and assignment\<close>

lemma length_bool_assign [simp]: "length (bool_assign xs ms vs) = length xs"
  by (induction xs ms vs rule: bool_assign.induct) auto

lemma length_bool_index: "length xs = length ms \<Longrightarrow> length (bool_index xs ms) = count_nonzero ms"
  by (induction xs ms rule: bool_index.induct) (auto simp: count_nonzero_def)

lemma bool_index_map: "bool_index (map f xs) ms = map f (bool_index xs ms)"
  by (induction xs ms rule: bool_index.induct) auto

lemma bool_index_zip:
  "length xs = length ys \<Longrightarrow> bool_index (zip xs ys) ms = zip (bool_index xs ms) (bool_index ys ms)"
proof (induction ms arbitrary: xs ys)
  case Nil
  then show ?case by (cases xs; cases ys) auto
next
  case (Cons m ms)
  then show ?case by (cases xs; cases ys) auto
qed

lemma bool_index_map2:
  "length xs = length ys \<Longrightarrow>
   bool_index (map2 f xs ys) ms = map2 f (bool_index xs ms) (bool_index ys ms)"
  by (simp add: bool_index_map bool_index_zip)

lemma bool_assign_bool_index:
  "length xs = length ms \<Longrightarrow> length ys = length ms \<Longrightarrow>
   bool_assign xs ms (bool_index ys ms) = merge ms xs ys"
proof (induction ms arbitrary: xs ys)
  case Nil
  then show ?case by (simp add: merge_def)
next
  case (Cons m ms)
  then obtain x xs' y ys' where "xs = x # xs'" "ys = y # ys'"
    by (cases xs; cases ys) auto
  with Cons show ?case by (cases m) (auto simp: merge_def)
qed

lemma bool_index_bool_index:
  "length xs = length ms \<Longrightarrow> length cs = length ms \<Longrightarrow>
   bool_index (bool_index xs ms) (bool_index cs ms) = bool_index xs (map2 (\<and>) ms cs)"
proof (induction ms arbitrary: xs cs)
  case Nil
  then show ?case by simp
next
  case (Cons m ms)
  then obtain x xs' c cs' where "xs = x # xs'" "cs = c # cs'"
    by (cases xs; cases cs) auto
  with Cons show ?case by (cases m) auto
qed

lemma merge_self: "length cs = length ms \<Longrightarrow> merge ms ms cs = map2 (\<and>) ms cs"
  by (rule nth_equalityI) (auto simp: merge_def)

lemma length_merge [simp]:
  "length (merge ms xs ys) = min (length ms) (min (length xs) (length ys))"
  by (simp add: merge_def)

lemma nth_merge:
  "r < length ms \<Longrightarrow> r < length xs \<Longrightarrow> r < length ys \<Longrightarrow>
   merge ms xs ys ! r = (if ms ! r then ys ! r else xs ! r)"
  by (simp add: merge_def)

lemma count_nonzero_sum: "count_nonzero ms = (\<Sum>r<length ms. if ms ! r then 1 else 0)"
proof (induction ms rule: rev_induct)
  case Nil
  then show ?case by (simp add: count_nonzero_def)
next
  case (snoc m ms)
  then show ?case by (simp add: count_nonzero_def nth_append)
qed

lemma new_score_bool_index:
  "length ps = length qs \<Longrightarrow>
   new_score self (bool_index ps ms) (bool_index qs ms) = bool_index (map2 (score1 self) ps qs) ms"
  by (simp add: new_score_def score1_def bool_index_map2 cong: map_cong)

lemma np_bool_index:
  "np_max (bool_index P ms) = bool_index (np_max P) ms"
  "np_min (bool_index P ms) = bool_index (np_min P) ms"
  "np_argmax (bool_index P ms) = bool_index (np_argmax P) ms"
  "np_argmin (bool_index P ms) = bool_index (np_argmin P) ms"
  by (simp_all add: np_max_def np_min_def np_argmax_def np_argmin_def bool_index_map)

lemma length_np [simp]:
  "length (np_max P) = length P" "length (np_min P) = length P"
  "length (np_argmax P) = length P" "length (np_argmin P) = length P"
  by (simp_all add: np_max_def np_min_def np_argmax_def np_argmin_def)

lemma length_probas [simp]: "length (probas self x cp i) = min (length x) (length cp)"
  by (simp add: probas_def)

lemma length_set_col [simp]: "length (set_col cp i ks) = min (length cp) (length ks)"
  by (simp add: set_col_def)

lemma probas_bool_index:
  "length x = length cp \<Longrightarrow>
   map (estimators (cc self) ! i) (hstack (bool_index x ms) (bool_index cp ms) i)
     = bool_index (probas self x cp i) ms"
  by (simp add: hstack_def probas_def bool_index_zip bool_index_map split_beta)

lemma col_assign_full:
  "length cp = length ms \<Longrightarrow> length ks = length ms \<Longrightarrow>
   col_assign cp ms i (bool_index ks ms) = merge ms cp (set_col cp i ks)"
  by (simp add: col_assign_def set_col_def bool_index_map2 [symmetric] bool_assign_bool_index)

lemma length_col_assign [simp]: "length (col_assign cp ms i ks) = length cp"
  by (simp add: col_assign_def)

lemma dfs_leaf:
  "i = length (estimators (cc self)) \<Longrightarrow>
   dfs self x (st, cp) cur_p i msk =
     (let change = bool_assign msk msk (map2 (\<lambda>p b. b < p) cur_p (bool_index (best_p st) msk))
      in (st\<lparr>best_pred := bool_assign (best_pred st) change (bool_index cp change),
             best_p := bool_assign (best_p st) change (bool_index cur_p (bool_index change msk))\<rparr>,
          cp))"
  by (subst dfs.simps) simp

lemma dfs_node:
  "i < length (estimators (cc self)) \<Longrightarrow>
   dfs self x (st, cp) cur_p i msk =
     (let proba = map (estimators (cc self) ! i) (hstack (bool_index x msk) (bool_index cp msk) i);
          r1 = dfs self x (st\<lparr>n_nodes := n_nodes st + of_nat (count_nonzero msk)\<rparr>,
                           col_assign cp msk i (np_argmax proba))
                 (new_score self cur_p (np_max proba)) (Suc i) msk;
          proba_min = new_score self cur_p (np_min proba);
          condition = map (\<lambda>p. epsilon self \<le> p) proba_min;
          new_msk = bool_assign msk msk condition
      in if 0 < count_nonzero new_msk
         then dfs self x (fst r1, col_assign (snd r1) new_msk i (np_argmin (bool_index proba condition)))
                (bool_index proba_min condition) (Suc i) new_msk
         else r1)"
  by (subst dfs.simps) (simp add: Let_def split_beta)

lemma dfs_lengths:
  "length (snd (dfs self x (st, cp) cur_p i msk)) = length cp
   \<and> length (best_p (fst (dfs self x (st, cp) cur_p i msk))) = length (best_p st)
   \<and> length (best_pred (fst (dfs self x (st, cp) cur_p i msk))) = length (best_pred st)"
proof (induction "length (estimators (cc self)) - i" arbitrary: st cp cur_p i msk)
  case 0
  then show ?case by (subst (1 2 3) dfs.simps) (simp add: Let_def)
next
  case (Suc k)
  then have k: "k = length (estimators (cc self)) - Suc i" and i: "i < length (estimators (cc self))"
    by auto
  show ?case
    using Suc.hyps(1) [OF k] by (simp add: dfs_node [OF i] Let_def)
qed

section \<open>The search on full-length arrays\<close>

lemma map2_and_absorb:
  "length cs = length ms \<Longrightarrow> map2 (\<and>) ms (map2 (\<and>) ms cs) = map2 (\<and>) ms cs"
  by (rule nth_equalityI) auto

lemma dfs_leaf_full:
  assumes "i = length (estimators (cc self))"
    and "length msk = n" "length p = n" "length (best_p st) = n"
    and "length (best_pred st) = n" "length cp = n"
  shows "dfs self x (st, cp) (bool_index p msk) i msk =
     (let change = map2 (\<and>) msk (map2 (\<lambda>q b. b < q) p (best_p st))
      in (st\<lparr>best_pred := merge change (best_pred st) cp,
             best_p := merge change (best_p st) p\<rparr>, cp))"
proof -
  define C where "C = map2 (\<lambda>q b. b < q) p (best_p st)"
  define change where "change = map2 (\<and>) msk C"
  have lC: "length C = n" and lch: "length change = n"
    using assms by (simp_all add: C_def change_def)
  have c1: "map2 (\<lambda>q b. b < q) (bool_index p msk) (bool_index (best_p st) msk) = bool_index C msk"
    using assms by (simp add: C_def bool_index_map2)
  have c2: "bool_assign msk msk (bool_index C msk) = change"
    using assms lC by (simp add: bool_assign_bool_index merge_self change_def)
  have c3: "bool_index (bool_index p msk) (bool_index change msk) = bool_index p change"
    using assms lC lch by (simp add: bool_index_bool_index) (simp add: change_def map2_and_absorb)
  have c4: "bool_assign (best_p st) change (bool_index p change) = merge change (best_p st) p"
    using assms lch by (simp add: bool_assign_bool_index)
  have c5: "bool_assign (best_pred st) change (bool_index cp change) = merge change (best_pred st) cp"
    using assms lch by (simp add: bool_assign_bool_index)
  show ?thesis
    by (simp add: dfs_leaf [OF assms(1)] Let_def c1 c2 c3 c4 c5 flip: C_def change_def)
qed

lemma dfs_node_full:
  assumes i: "i < length (estimators (cc self))"
    and len: "length msk = n" "length p = n" "length x = n" "length cp = n"
  shows "dfs self x (st, cp) (bool_index p msk) i msk =
     (let P = probas self x cp i;
          r1 = dfs self x (st\<lparr>n_nodes := n_nodes st + of_nat (count_nonzero msk)\<rparr>,
                           merge msk cp (set_col cp i (np_argmax P)))
                 (bool_index (map2 (score1 self) p (np_max P)) msk) (Suc i) msk;
          pmin = map2 (score1 self) p (np_min P);
          new_msk = map2 (\<and>) msk (map (\<lambda>q. epsilon self \<le> q) pmin)
      in if 0 < count_nonzero new_msk
         then dfs self x (fst r1, merge new_msk (snd r1) (set_col (snd r1) i (np_argmin P)))
                (bool_index pmin new_msk) (Suc i) new_msk
         else r1)"
proof -
  define P where "P = probas self x cp i"
  define pmin where "pmin = map2 (score1 self) p (np_min P)"
  define C where "C = map (\<lambda>q. epsilon self \<le> q) pmin"
  define new_msk where "new_msk = map2 (\<and>) msk C"
  define r1 where "r1 = dfs self x (st\<lparr>n_nodes := n_nodes st + of_nat (count_nonzero msk)\<rparr>,
                           merge msk cp (set_col cp i (np_argmax P)))
                 (bool_index (map2 (score1 self) p (np_max P)) msk) (Suc i) msk"
  have lP: "length P = n" using len by (simp add: P_def)
  have lpmin: "length pmin = n" using len lP by (simp add: pmin_def)
  have lC: "length C = n" using lpmin by (simp add: C_def)
  have lnew: "length new_msk = n" using lC len by (simp add: new_msk_def)
  have lr1: "length (snd r1) = n" using len lP by (simp add: r1_def dfs_lengths)
  have e1: "map (estimators (cc self) ! i) (hstack (bool_index x msk) (bool_index cp msk) i)
              = bool_index P msk"
    using len by (simp add: probas_bool_index P_def)
  have e2: "col_assign cp msk i (bool_index (np_argmax P) msk)
              = merge msk cp (set_col cp i (np_argmax P))"
    using len lP by (simp add: col_assign_full)
  have e3: "new_score self (bool_index p msk) (bool_index (np_max P) msk)
              = bool_index (map2 (score1 self) p (np_max P)) msk"
    using len lP by (simp add: new_score_bool_index)
  have e4: "new_score self (bool_index p msk) (bool_index (np_min P) msk) = bool_index pmin msk"
    using len lP by (simp add: new_score_bool_index pmin_def)
  have e5: "map (\<lambda>q. epsilon self \<le> q) (bool_index pmin msk) = bool_index C msk"
    by (simp add: C_def bool_index_map)
  have e6: "bool_assign msk msk (bool_index C msk) = new_msk"
    using len lC by (simp add: bool_assign_bool_index merge_self new_msk_def)
  have e7: "bool_index (bool_index (np_argmin P) msk) (bool_index C msk)
              = bool_index (np_argmin P) new_msk"
    using len lP lC by (simp add: bool_index_bool_index new_msk_def)
  have e8: "bool_index (bool_index pmin msk) (bool_index C msk) = bool_index pmin new_msk"
    using len lpmin lC by (simp add: bool_index_bool_index new_msk_def)
  have e9: "col_assign (snd r1) new_msk i (bool_index (np_argmin P) new_msk)
              = merge new_msk (snd r1) (set_col (snd r1) i (np_argmin P))"
    using lr1 lnew lP by (simp add: col_assign_full)
  show ?thesis
    unfolding dfs_node [OF i] Let_def e1 np_bool_index e2 e3 e4 e5 e6 e7 e8
    unfolding r1_def [symmetric] e9
    unfolding P_def [symmetric] pmin_def [symmetric] C_def [symmetric] new_msk_def [symmetric]
      r1_def [symmetric]
    by simp
qed


lemma dfs_past_end:
  "length (estimators (cc self)) < i \<Longrightarrow> dfs self x (st, cp) cur_p i msk = (st, cp)"
  by (subst dfs.simps) simp

lemma dfs_best_monotone:
  assumes "length msk = n" "length p = n" "length x = n" "length cp = n"
    and "length (best_p st) = n" "length (best_pred st) = n" "r < n"
  shows "best_p st ! r \<le> best_p (fst (dfs self x (st, cp) (bool_index p msk) i msk)) ! r
    \<and> (best_p (fst (dfs self x (st, cp) (bool_index p msk) i msk)) ! r = best_p st ! r
        \<longrightarrow> best_pred (fst (dfs self x (st, cp) (bool_index p msk) i msk)) ! r = best_pred st ! r)"
  using assms
proof (induction "length (estimators (cc self)) - i" arbitrary: st cp p i msk)
  case 0
  show ?case
  proof (cases "i = length (estimators (cc self))")
    case True
    show ?thesis
      using 0(2-) by (simp add: dfs_leaf_full [OF True 0(2,3,6,7,5)] Let_def nth_merge)
  next
    case False
    with 0(1) have "length (estimators (cc self)) < i" by simp
    then show ?thesis by (simp add: dfs_past_end)
  qed
next
  case (Suc k)
  then have k: "k = length (estimators (cc self)) - Suc i" and i: "i < length (estimators (cc self))"
    by auto
  define P where "P = probas self x cp i"
  define st1 where "st1 = st\<lparr>n_nodes := n_nodes st + of_nat (count_nonzero msk)\<rparr>"
  define cp1 where "cp1 = merge msk cp (set_col cp i (np_argmax P))"
  define pmax where "pmax = map2 (score1 self) p (np_max P)"
  define r1 where "r1 = dfs self x (st1, cp1) (bool_index pmax msk) (Suc i) msk"
  define pmin where "pmin = map2 (score1 self) p (np_min P)"
  define new_msk where "new_msk = map2 (\<and>) msk (map (\<lambda>q. epsilon self \<le> q) pmin)"
  define cp3 where "cp3 = merge new_msk (snd r1) (set_col (snd r1) i (np_argmin P))"
  define r2 where "r2 = dfs self x (fst r1, cp3) (bool_index pmin new_msk) (Suc i) new_msk"
  have lP: "length P = n" using Suc.prems by (simp add: P_def)
  have l1: "length cp1 = n" "length pmax = n" "length (best_p st1) = n" "length (best_pred st1) = n"
    using Suc.prems lP by (simp_all add: cp1_def pmax_def st1_def)
  have l2: "length (snd r1) = n" "length (best_p (fst r1)) = n" "length (best_pred (fst r1)) = n"
    using l1 by (simp_all add: r1_def dfs_lengths)
  have l3: "length pmin = n" "length new_msk = n" "length cp3 = n"
    using Suc.prems lP l2 by (simp_all add: pmin_def new_msk_def cp3_def)
  have step1: "best_p st ! r \<le> best_p (fst r1) ! r
      \<and> (best_p (fst r1) ! r = best_p st ! r \<longrightarrow> best_pred (fst r1) ! r = best_pred st ! r)"
    using Suc.hyps(1) [OF k Suc.prems(1) l1(2) Suc.prems(3) l1(1) l1(3) l1(4) Suc.prems(7)]
    by (simp add: r1_def st1_def)
  have step2: "best_p (fst r1) ! r \<le> best_p (fst r2) ! r
      \<and> (best_p (fst r2) ! r = best_p (fst r1) ! r \<longrightarrow> best_pred (fst r2) ! r = best_pred (fst r1) ! r)"
    using Suc.hyps(1) [OF k l3(2) l3(1) Suc.prems(3) l3(3) l2(2) l2(3) Suc.prems(7)]
    by (simp add: r2_def)
  have unfold: "dfs self x (st, cp) (bool_index p msk) i msk
      = (if 0 < count_nonzero new_msk then r2 else r1)"
    by (simp add: dfs_node_full [OF i Suc.prems(1,2,3,4)] Let_def r2_def cp3_def new_msk_def
        pmin_def r1_def pmax_def cp1_def st1_def P_def)
  show ?case
    unfolding unfold using step1 step2 by auto
qed

lemma nth_upd_rows:
  "r < length ms \<Longrightarrow> length cp = length ms \<Longrightarrow> length ks = length ms \<Longrightarrow>
   merge ms cp (set_col cp i ks) ! r = (if ms ! r then (cp ! r)[i := ks ! r] else cp ! r)"
  by (simp add: nth_merge set_col_def)

lemma take_from_Suc: "take (Suc i) xs = take (Suc i) ys \<Longrightarrow> take i xs = take i ys"
  by (metis min.absorb1 le_add2 plus_1_eq_Suc take_take)

lemma dfs_frame:
  assumes "length msk = n" "length p = n" "length x = n" "length cp = n" "r < n"
  shows "length (snd (dfs self x (st, cp) (bool_index p msk) i msk) ! r) = length (cp ! r)
    \<and> take i (snd (dfs self x (st, cp) (bool_index p msk) i msk) ! r) = take i (cp ! r)"
  using assms
proof (induction "length (estimators (cc self)) - i" arbitrary: st cp p i msk)
  case 0
  then show ?case by (subst (1 2) dfs.simps) (simp add: Let_def)
next
  case (Suc k)
  then have k: "k = length (estimators (cc self)) - Suc i" and i: "i < length (estimators (cc self))"
    by auto
  define P where "P = probas self x cp i"
  define st1 where "st1 = st\<lparr>n_nodes := n_nodes st + of_nat (count_nonzero msk)\<rparr>"
  define cp1 where "cp1 = merge msk cp (set_col cp i (np_argmax P))"
  define pmax where "pmax = map2 (score1 self) p (np_max P)"
  define r1 where "r1 = dfs self x (st1, cp1) (bool_index pmax msk) (Suc i) msk"
  define pmin where "pmin = map2 (score1 self) p (np_min P)"
  define new_msk where "new_msk = map2 (\<and>) msk (map (\<lambda>q. epsilon self \<le> q) pmin)"
  define cp3 where "cp3 = merge new_msk (snd r1) (set_col (snd r1) i (np_argmin P))"
  define r2 where "r2 = dfs self x (fst r1, cp3) (bool_index pmin new_msk) (Suc i) new_msk"
  have lP: "length P = n" using Suc.prems by (simp add: P_def)
  have l1: "length cp1 = n" "length pmax = n"
    using Suc.prems lP by (simp_all add: cp1_def pmax_def)
  have l2: "length (snd r1) = n"
    using l1 by (simp_all add: r1_def dfs_lengths)
  have l3: "length pmin = n" "length new_msk = n" "length cp3 = n"
    using Suc.prems lP l2 by (simp_all add: pmin_def new_msk_def cp3_def)
  have a1: "length (cp1 ! r) = length (cp ! r) \<and> take i (cp1 ! r) = take i (cp ! r)"
    using Suc.prems lP by (simp add: cp1_def nth_upd_rows)
  have a2: "length (snd r1 ! r) = length (cp1 ! r) \<and> take (Suc i) (snd r1 ! r) = take (Suc i) (cp1 ! r)"
    using Suc.hyps(1) [OF k Suc.prems(1) l1(2) Suc.prems(3) l1(1) Suc.prems(5)]
    by (simp add: r1_def)
  have a3: "length (cp3 ! r) = length (snd r1 ! r) \<and> take i (cp3 ! r) = take i (snd r1 ! r)"
    using Suc.prems lP l2 l3 by (simp add: cp3_def nth_upd_rows)
  have a4: "length (snd r2 ! r) = length (cp3 ! r) \<and> take (Suc i) (snd r2 ! r) = take (Suc i) (cp3 ! r)"
    using Suc.hyps(1) [OF k l3(2) l3(1) Suc.prems(3) l3(3) Suc.prems(5)]
    by (simp add: r2_def)
  have unfold: "dfs self x (st, cp) (bool_index p msk) i msk
      = (if 0 < count_nonzero new_msk then r2 else r1)"
    by (simp add: dfs_node_full [OF i Suc.prems(1,2,3,4)] Let_def r2_def cp3_def new_msk_def
        pmin_def r1_def pmax_def cp1_def st1_def P_def)
  have b2: "take i (snd r1 ! r) = take i (cp1 ! r)"
    using a2 take_from_Suc by blast
  have b4: "take i (snd r2 ! r) = take i (cp3 ! r)"
    using a4 take_from_Suc by blast
  show ?case
    unfolding unfold using a1 a2 a3 a4 b2 b4 by simp
qed

section \<open>Node counts\<close>

lemma take_Suc_update: "i < length xs \<Longrightarrow> take (Suc i) (xs[i := v]) = take i xs @ [v]"
  by (simp add: take_Suc_conv_app_nth)

lemma nth_probas:
  "r < length x \<Longrightarrow> r < length cp \<Longrightarrow>
   probas self x cp i ! r = (estimators (cc self) ! i) (x ! r @ map of_bool (take i (cp ! r)))"
  by (simp add: probas_def)

lemma nth_np:
  "r < length P \<Longrightarrow> np_max P ! r = max (fst (P ! r)) (snd (P ! r))"
  "r < length P \<Longrightarrow> np_min P ! r = min (fst (P ! r)) (snd (P ! r))"
  "r < length P \<Longrightarrow> np_argmax P ! r = (fst (P ! r) < snd (P ! r))"
  "r < length P \<Longrightarrow> np_argmin P ! r = (snd (P ! r) < fst (P ! r))"
  by (simp_all add: np_max_def np_min_def np_argmax_def np_argmin_def split_beta)

lemma count_nonzero_zero:
  assumes "count_nonzero ms = 0" "r < length ms"
  shows "\<not> ms ! r"
proof
  assume a: "ms ! r"
  have "ms ! r \<in> set ms"
    using assms(2) by (rule nth_mem)
  with a have "ms ! r \<in> set (filter (\<lambda>m. m) ms)"
    by simp
  then have "filter (\<lambda>m. m) ms \<noteq> []"
    by (metis empty_iff empty_set)
  with assms(1) show False
    by (simp add: count_nonzero_def)
qed

lemma nodes_row_unfold:
  "i < length (estimators (cc self)) \<Longrightarrow>
   nodes_row self xr pref s i =
     (let pr = (estimators (cc self) ! i) (xr @ map of_bool pref);
          smin = score1 self s (min (fst pr) (snd pr))
      in 1 + nodes_row self xr (pref @ [fst pr < snd pr]) (score1 self s (max (fst pr) (snd pr))) (Suc i)
           + (if epsilon self \<le> smin then nodes_row self xr (pref @ [snd pr < fst pr]) smin (Suc i)
              else 0))"
  by (subst nodes_row.simps) (simp add: Let_def split_beta)

lemma nodes_row_end: "\<not> i < length (estimators (cc self)) \<Longrightarrow> nodes_row self xr pref s i = 0"
  by (subst nodes_row.simps) simp

lemma dfs_node_count:
  assumes "length msk = n" "length p = n" "length x = n" "length cp = n"
    and "\<forall>r<n. length (cp ! r) = length (estimators (cc self))"
  shows "n_nodes (fst (dfs self x (st, cp) (bool_index p msk) i msk))
    = n_nodes st
      + of_nat (\<Sum>r<n. if msk ! r then nodes_row self (x ! r) (take i (cp ! r)) (p ! r) i else 0)"
  using assms
proof (induction "length (estimators (cc self)) - i" arbitrary: st cp p i msk)
  case 0
  then have "\<not> i < length (estimators (cc self))" by simp
  then show ?case by (subst dfs.simps) (simp add: Let_def nodes_row_end cong: if_cong)
next
  case (Suc k)
  then have k: "k = length (estimators (cc self)) - Suc i" and i: "i < length (estimators (cc self))"
    by auto
  define P where "P = probas self x cp i"
  define st1 where "st1 = st\<lparr>n_nodes := n_nodes st + of_nat (count_nonzero msk)\<rparr>"
  define cp1 where "cp1 = merge msk cp (set_col cp i (np_argmax P))"
  define pmax where "pmax = map2 (score1 self) p (np_max P)"
  define r1 where "r1 = dfs self x (st1, cp1) (bool_index pmax msk) (Suc i) msk"
  define pmin where "pmin = map2 (score1 self) p (np_min P)"
  define new_msk where "new_msk = map2 (\<and>) msk (map (\<lambda>q. epsilon self \<le> q) pmin)"
  define cp3 where "cp3 = merge new_msk (snd r1) (set_col (snd r1) i (np_argmin P))"
  define r2 where "r2 = dfs self x (fst r1, cp3) (bool_index pmin new_msk) (Suc i) new_msk"
  define A1 where "A1 = (\<lambda>r. if msk ! r
      then nodes_row self (x ! r) (take (Suc i) (cp1 ! r)) (pmax ! r) (Suc i) else 0)"
  define A2 where "A2 = (\<lambda>r. if new_msk ! r
      then nodes_row self (x ! r) (take (Suc i) (cp3 ! r)) (pmin ! r) (Suc i) else 0)"
  have lP: "length P = n" using Suc.prems by (simp add: P_def)
  have l1: "length cp1 = n" "length pmax = n"
    using Suc.prems lP by (simp_all add: cp1_def pmax_def)
  have l2: "length (snd r1) = n"
    using l1 by (simp_all add: r1_def dfs_lengths)
  have l3: "length pmin = n" "length new_msk = n" "length cp3 = n"
    using Suc.prems lP l2 by (simp_all add: pmin_def new_msk_def cp3_def)
  have rows1: "\<forall>r<n. length (cp1 ! r) = length (estimators (cc self))"
    using Suc.prems lP by (simp add: cp1_def nth_upd_rows)
  have frame1: "length (snd r1 ! r) = length (cp1 ! r) \<and> take (Suc i) (snd r1 ! r) = take (Suc i) (cp1 ! r)"
    if "r < n" for r
    unfolding r1_def by (rule dfs_frame [OF Suc.prems(1) l1(2) Suc.prems(3) l1(1) that])
  have rows3: "\<forall>r<n. length (cp3 ! r) = length (estimators (cc self))"
    using Suc.prems lP l2 l3 frame1 rows1 by (simp add: cp3_def nth_upd_rows)
  have n1: "n_nodes (fst r1) = n_nodes st1 + of_nat (\<Sum>r<n. A1 r)"
    unfolding r1_def A1_def
    by (rule Suc.hyps(1) [OF k Suc.prems(1) l1(2) Suc.prems(3) l1(1) rows1])
  have n2: "n_nodes (fst r2) = n_nodes (fst r1) + of_nat (\<Sum>r<n. A2 r)"
    unfolding r2_def A2_def
    by (rule Suc.hyps(1) [OF k l3(2) l3(1) Suc.prems(3) l3(3) rows3])
  have unfold: "dfs self x (st, cp) (bool_index p msk) i msk
      = (if 0 < count_nonzero new_msk then r2 else r1)"
    by (simp add: dfs_node_full [OF i Suc.prems(1,2,3,4)] Let_def r2_def cp3_def new_msk_def
        pmin_def r1_def pmax_def cp1_def st1_def P_def)
  have zero: "(\<Sum>r<n. A2 r) = 0" if "\<not> 0 < count_nonzero new_msk"
    using that l3(2) by (auto simp: A2_def dest: count_nonzero_zero)
  have total: "n_nodes (fst (dfs self x (st, cp) (bool_index p msk) i msk))
      = n_nodes st + of_nat (count_nonzero msk) + of_nat (\<Sum>r<n. A1 r) + of_nat (\<Sum>r<n. A2 r)"
    unfolding unfold using n1 n2 zero by (simp add: st1_def)
  have pointwise: "(if msk ! r then nodes_row self (x ! r) (take i (cp ! r)) (p ! r) i else 0)
      = (if msk ! r then 1 else 0) + A1 r + A2 r" if r: "r < n" for r
  proof (cases "msk ! r")
    case False
    then show ?thesis using r Suc.prems l3 by (simp add: A1_def A2_def new_msk_def)
  next
    case True
    have ir: "i < length (cp ! r)" using i r Suc.prems by simp
    have Pr: "P ! r = (estimators (cc self) ! i) (x ! r @ map of_bool (take i (cp ! r)))"
      using r Suc.prems by (simp add: P_def nth_probas)
    have t1: "take (Suc i) (cp1 ! r) = take i (cp ! r) @ [fst (P ! r) < snd (P ! r)]"
      using r True ir Suc.prems lP by (simp add: cp1_def nth_upd_rows take_Suc_update nth_np)
    have s1: "pmax ! r = score1 self (p ! r) (max (fst (P ! r)) (snd (P ! r)))"
      using r Suc.prems lP by (simp add: pmax_def nth_np)
    have s2: "pmin ! r = score1 self (p ! r) (min (fst (P ! r)) (snd (P ! r)))"
      using r Suc.prems lP by (simp add: pmin_def nth_np)
    have m2: "new_msk ! r = (epsilon self \<le> pmin ! r)"
      using r True Suc.prems l3 by (simp add: new_msk_def)
    have i1: "i < length (snd r1 ! r)"
      using frame1 [OF r] rows1 r i by simp
    have "take i (snd r1 ! r) = take i (cp1 ! r)"
      using frame1 [OF r] take_from_Suc by blast
    also have "\<dots> = take i (cp ! r)"
      using r True Suc.prems lP by (simp add: cp1_def nth_upd_rows)
    finally have pre: "take i (snd r1 ! r) = take i (cp ! r)" .
    have t2: "take (Suc i) (cp3 ! r) = take i (cp ! r) @ [snd (P ! r) < fst (P ! r)]"
      if "new_msk ! r"
      using that r i1 l2 l3 lP pre by (simp add: cp3_def nth_upd_rows take_Suc_update nth_np)
    show ?thesis
      using True t2
      by (simp add: nodes_row_unfold [OF i] Let_def A1_def A2_def t1 s1 s2 m2 Pr [symmetric])
  qed
  have "(\<Sum>r<n. if msk ! r then nodes_row self (x ! r) (take i (cp ! r)) (p ! r) i else 0)
      = (\<Sum>r<n. (if msk ! r then 1 else 0) + A1 r + A2 r)"
    by (rule sum.cong) (simp_all add: pointwise)
  also have "\<dots> = count_nonzero msk + (\<Sum>r<n. A1 r) + (\<Sum>r<n. A2 r)"
    using Suc.prems(1) by (simp add: sum.distrib count_nonzero_sum)
  finally show ?case
    using total by simp
qed

lemma score1_epsilon [simp]: "score1 (self\<lparr>epsilon := e\<rparr>) = score1 self"
  by (rule ext, rule ext) (simp add: score1_def)

lemma nodes_row_antimono:
  assumes "eps1 \<le> eps2"
  shows "nodes_row (self\<lparr>epsilon := eps2\<rparr>) xr pref s i \<le> nodes_row (self\<lparr>epsilon := eps1\<rparr>) xr pref s i"
proof (induction "length (estimators (cc self)) - i" arbitrary: pref s i)
  case 0
  then show ?case by (simp add: nodes_row_end)
next
  case (Suc k)
  then have k: "k = length (estimators (cc self)) - Suc i" and i: "i < length (estimators (cc self))"
    by auto
  have i1: "i < length (estimators (cc (self\<lparr>epsilon := eps1\<rparr>)))"
    and i2: "i < length (estimators (cc (self\<lparr>epsilon := eps2\<rparr>)))"
    using i by simp_all
  show ?case
    using assms Suc.hyps(1) [OF k]
    by (simp add: nodes_row_unfold [OF i1] nodes_row_unfold [OF i2] Let_def add_mono trans_le_add1)
qed

lemma bool_index_all: "length xs = n \<Longrightarrow> bool_index xs (replicate n True) = xs"
  by (induction xs arbitrary: n) auto

lemma infer_node_count:
  assumes "x \<noteq> []"
  shows "\<exists>st2 pred. EpsilonApproximationInferer_infer self st x
    = Inr (st2, pred, of_nat (\<Sum>r<length x. nodes_row self (x ! r) [] 1 0) / of_nat (length x))"
proof -
  define n where "n = length x"
  define cp where "cp = replicate n (replicate (length (estimators (cc self))) False)"
  have p: "replicate n (1::rat) = bool_index (replicate n 1) (replicate n True)"
    by (simp add: bool_index_all)
  have "n_nodes (fst (dfs self x (init_search self x, cp) (bool_index (replicate n 1) (replicate n True)) 0
          (replicate n True)))
      = n_nodes (init_search self x)
        + of_nat (\<Sum>r<n. if replicate n True ! r
                   then nodes_row self (x ! r) (take 0 (cp ! r)) (replicate n 1 ! r) 0 else 0)"
    by (rule dfs_node_count) (simp_all add: n_def cp_def)
  also have "\<dots> = of_nat (\<Sum>r<n. nodes_row self (x ! r) [] 1 0)"
    by (simp add: init_search_def)
  finally have "n_nodes (fst (dfs self x (init_search self x, cp) (replicate n 1) 0
          (replicate n True))) = of_nat (\<Sum>r<n. nodes_row self (x ! r) [] 1 0)"
    by (simp only: p [symmetric])
  moreover have "0 < n"
    using assms by (simp add: n_def)
  ultimately show ?thesis
    by (simp add: EpsilonApproximationInferer_infer_def Let_def split_beta p [symmetric]
        n_def [symmetric] cp_def [symmetric])
qed

text \<open>
  C7.  For a non-empty batch and \<open>eps1 \<le> eps2\<close>, both searches return, and the mean
  visited-node count reported with \<open>eps2\<close> is at most the one reported with \<open>eps1\<close>:
  the count does not decrease as epsilon decreases.
\<close>

theorem node_count_monotone:
  assumes "eps1 \<le> eps2" and "x \<noteq> []"
  shows "\<exists>s1 p1 n1 r1 s2 p2 n2 r2.
      infer EpsilonApproximationInferer_infer (self\<lparr>epsilon := eps1\<rparr>) st x
        = Inr (s1, [Matrix p1, Float n1, Float r1])
    \<and> infer EpsilonApproximationInferer_infer (self\<lparr>epsilon := eps2\<rparr>) st x
        = Inr (s2, [Matrix p2, Float n2, Float r2])
    \<and> n2 \<le> n1"
proof -
  obtain s1 p1 where e1: "EpsilonApproximationInferer_infer (self\<lparr>epsilon := eps1\<rparr>) st x
    = Inr (s1, p1, of_nat (\<Sum>r<length x. nodes_row (self\<lparr>epsilon := eps1\<rparr>) (x ! r) [] 1 0)
                     / of_nat (length x))"
    using infer_node_count [OF assms(2)] by blast
  obtain s2 p2 where e2: "EpsilonApproximationInferer_infer (self\<lparr>epsilon := eps2\<rparr>) st x
    = Inr (s2, p2, of_nat (\<Sum>r<length x. nodes_row (self\<lparr>epsilon := eps2\<rparr>) (x ! r) [] 1 0)
                     / of_nat (length x))"
    using infer_node_count [OF assms(2)] by blast
  have "(\<Sum>r<length x. nodes_row (self\<lparr>epsilon := eps2\<rparr>) (x ! r) [] 1 0)
      \<le> (\<Sum>r<length x. nodes_row (self\<lparr>epsilon := eps1\<rparr>) (x ! r) [] 1 0)"
    by (rule sum_mono) (rule nodes_row_antimono [OF assms(1)])
  then have "(of_nat (\<Sum>r<length x. nodes_row (self\<lparr>epsilon := eps2\<rparr>) (x ! r) [] 1 0) :: rat)
      \<le> of_nat (\<Sum>r<length x. nodes_row (self\<lparr>epsilon := eps1\<rparr>) (x ! r) [] 1 0)"
    by (rule of_nat_mono)
  then have "(of_nat (\<Sum>r<length x. nodes_row (self\<lparr>epsilon := eps2\<rparr>) (x ! r) [] 1 0) :: rat)
                / of_nat (length x)
      \<le> of_nat (\<Sum>r<length x. nodes_row (self\<lparr>epsilon := eps1\<rparr>) (x ! r) [] 1 0)
                / of_nat (length x)"
    by (rule divide_right_mono) simp
  then show ?thesis
    unfolding infer_def e1 e2 by (simp del: of_nat_sum)
qed

theorem node_count_monotone_witness:
  "\<exists>s1 p1 n1 r1 s2 p2 n2 r2.
      infer EpsilonApproximationInferer_infer ((scenario ''exact_match'' 0)\<lparr>epsilon := 0\<rparr>)
        fresh [[0]] = Inr (s1, [Matrix p1, Float n1, Float r1])
    \<and> infer EpsilonApproximationInferer_infer ((scenario ''exact_match'' 0)\<lparr>epsilon := 1 / 2\<rparr>)
        fresh [[0]] = Inr (s2, [Matrix p2, Float n2, Float r2])
    \<and> n2 \<le> n1"
  using node_count_monotone [of 0 "1 / 2" "[[0]]" "scenario ''exact_match'' 0" fresh]
  by simp

section \<open>The best path\<close>

lemma leaves_row_unfold:
  "i < length (estimators (cc self)) \<Longrightarrow>
   leaves_row self xr pref s i =
     (let pr = (estimators (cc self) ! i) (xr @ map of_bool pref);
          smin = score1 self s (min (fst pr) (snd pr))
      in leaves_row self xr (pref @ [fst pr < snd pr]) (score1 self s (max (fst pr) (snd pr))) (Suc i)
         @ (if epsilon self \<le> smin then leaves_row self xr (pref @ [snd pr < fst pr]) smin (Suc i)
            else []))"
  by (subst leaves_row.simps) (simp add: Let_def split_beta)

lemma leaves_row_end:
  "\<not> i < length (estimators (cc self)) \<Longrightarrow> leaves_row self xr pref s i = [(pref, s)]"
  by (subst leaves_row.simps) simp

lemma dfs_best_fold:
  assumes "length msk = n" "length p = n" "length x = n" "length cp = n"
    and "length (best_p st) = n" "length (best_pred st) = n"
    and "\<forall>r<n. length (cp ! r) = length (estimators (cc self))"
    and "i \<le> length (estimators (cc self))" "r < n"
  shows "(best_p (fst (dfs self x (st, cp) (bool_index p msk) i msk)) ! r,
          best_pred (fst (dfs self x (st, cp) (bool_index p msk) i msk)) ! r)
    = (if msk ! r
       then foldl keep_best (best_p st ! r, best_pred st ! r)
              (leaves_row self (x ! r) (take i (cp ! r)) (p ! r) i)
       else (best_p st ! r, best_pred st ! r))"
  using assms
proof (induction "length (estimators (cc self)) - i" arbitrary: st cp p i msk)
  case 0
  then have i: "i = length (estimators (cc self))" by simp
  have ni: "\<not> i < length (estimators (cc self))"
    using i by simp
  have tk: "take i (cp ! r) = cp ! r"
    using 0(8,10) i by simp
  show ?case
    unfolding dfs_leaf_full [OF i 0(2,3,6,7,5)] leaves_row_end [OF ni] tk
    using 0(2-7,10) by (simp add: Let_def nth_merge keep_best_def)
next
  case (Suc k)
  then have k: "k = length (estimators (cc self)) - Suc i" and i: "i < length (estimators (cc self))"
    by auto
  have iS: "Suc i \<le> length (estimators (cc self))" using i by simp
  define P where "P = probas self x cp i"
  define st1 where "st1 = st\<lparr>n_nodes := n_nodes st + of_nat (count_nonzero msk)\<rparr>"
  define cp1 where "cp1 = merge msk cp (set_col cp i (np_argmax P))"
  define pmax where "pmax = map2 (score1 self) p (np_max P)"
  define r1 where "r1 = dfs self x (st1, cp1) (bool_index pmax msk) (Suc i) msk"
  define pmin where "pmin = map2 (score1 self) p (np_min P)"
  define new_msk where "new_msk = map2 (\<and>) msk (map (\<lambda>q. epsilon self \<le> q) pmin)"
  define cp3 where "cp3 = merge new_msk (snd r1) (set_col (snd r1) i (np_argmin P))"
  define r2 where "r2 = dfs self x (fst r1, cp3) (bool_index pmin new_msk) (Suc i) new_msk"
  define b0 where "b0 = (best_p st ! r, best_pred st ! r)"
  define b1 where "b1 = (best_p (fst r1) ! r, best_pred (fst r1) ! r)"
  define b2 where "b2 = (best_p (fst r2) ! r, best_pred (fst r2) ! r)"
  define L1 where "L1 = leaves_row self (x ! r) (take (Suc i) (cp1 ! r)) (pmax ! r) (Suc i)"
  define L2 where "L2 = leaves_row self (x ! r) (take (Suc i) (cp3 ! r)) (pmin ! r) (Suc i)"
  note prems = Suc.prems
  have r: "r < n" by (rule prems(9))
  have lP: "length P = n" using prems by (simp add: P_def)
  have l1: "length cp1 = n" "length pmax = n" "length (best_p st1) = n" "length (best_pred st1) = n"
    using prems lP by (simp_all add: cp1_def pmax_def st1_def)
  have l2: "length (snd r1) = n" "length (best_p (fst r1)) = n" "length (best_pred (fst r1)) = n"
    using l1 by (simp_all add: r1_def dfs_lengths)
  have l3: "length pmin = n" "length new_msk = n" "length cp3 = n"
    using prems lP l2 by (simp_all add: pmin_def new_msk_def cp3_def)
  have rows1: "\<forall>r<n. length (cp1 ! r) = length (estimators (cc self))"
    using prems lP by (simp add: cp1_def nth_upd_rows)
  have frame1: "length (snd r1 ! q) = length (cp1 ! q) \<and> take (Suc i) (snd r1 ! q) = take (Suc i) (cp1 ! q)"
    if "q < n" for q
    unfolding r1_def by (rule dfs_frame [OF prems(1) l1(2) prems(3) l1(1) that])
  have rows3: "\<forall>r<n. length (cp3 ! r) = length (estimators (cc self))"
    using prems lP l2 l3 frame1 rows1 by (simp add: cp3_def nth_upd_rows)
  have ih1: "b1 = (if msk ! r then foldl keep_best b0 L1 else b0)"
    using Suc.hyps(1) [OF k prems(1) l1(2) prems(3) l1(1) l1(3) l1(4) rows1 iS r]
    by (simp add: b1_def b0_def L1_def r1_def st1_def)
  have ih2: "b2 = (if new_msk ! r then foldl keep_best b1 L2 else b1)"
    using Suc.hyps(1) [OF k l3(2) l3(1) prems(3) l3(3) l2(2) l2(3) rows3 iS r]
    by (simp add: b2_def b1_def L2_def r2_def)
  have unfold: "dfs self x (st, cp) (bool_index p msk) i msk
      = (if 0 < count_nonzero new_msk then r2 else r1)"
    by (simp add: dfs_node_full [OF i prems(1,2,3,4)] Let_def r2_def cp3_def new_msk_def
        pmin_def r1_def pmax_def cp1_def st1_def P_def)
  have none: "\<not> new_msk ! r" if "\<not> 0 < count_nonzero new_msk"
    using that l3(2) r count_nonzero_zero by simp
  have result: "(best_p (fst (dfs self x (st, cp) (bool_index p msk) i msk)) ! r,
                 best_pred (fst (dfs self x (st, cp) (bool_index p msk) i msk)) ! r)
      = (if new_msk ! r then foldl keep_best b1 L2 else b1)"
    unfolding unfold using ih2 none by (auto simp: b2_def b1_def)
  show ?case
  proof (cases "msk ! r")
    case False
    then have "\<not> new_msk ! r" using r prems l3 by (simp add: new_msk_def)
    with False show ?thesis
      unfolding result using ih1 by (simp add: b0_def)
  next
    case True
    have ir: "i < length (cp ! r)" using i r prems by simp
    have Pr: "P ! r = (estimators (cc self) ! i) (x ! r @ map of_bool (take i (cp ! r)))"
      using r prems by (simp add: P_def nth_probas)
    have t1: "take (Suc i) (cp1 ! r) = take i (cp ! r) @ [fst (P ! r) < snd (P ! r)]"
      using r True ir prems lP by (simp add: cp1_def nth_upd_rows take_Suc_update nth_np)
    have s1: "pmax ! r = score1 self (p ! r) (max (fst (P ! r)) (snd (P ! r)))"
      using r prems lP by (simp add: pmax_def nth_np)
    have s2: "pmin ! r = score1 self (p ! r) (min (fst (P ! r)) (snd (P ! r)))"
      using r prems lP by (simp add: pmin_def nth_np)
    have m2: "new_msk ! r = (epsilon self \<le> pmin ! r)"
      using r True prems l3 by (simp add: new_msk_def)
    have i1: "i < length (snd r1 ! r)"
      using frame1 [OF r] rows1 r i by simp
    have "take i (snd r1 ! r) = take i (cp1 ! r)"
      using frame1 [OF r] take_from_Suc by blast
    also have "\<dots> = take i (cp ! r)"
      using r True prems lP by (simp add: cp1_def nth_upd_rows)
    finally have pre: "take i (snd r1 ! r) = take i (cp ! r)" .
    have t2: "take (Suc i) (cp3 ! r) = take i (cp ! r) @ [snd (P ! r) < fst (P ! r)]"
      if "new_msk ! r"
      using that r i1 l2 l3 lP pre by (simp add: cp3_def nth_upd_rows take_Suc_update nth_np)
    have leaves: "leaves_row self (x ! r) (take i (cp ! r)) (p ! r) i
        = L1 @ (if new_msk ! r then L2 else [])"
      using t2 by (simp add: leaves_row_unfold [OF i] Let_def L1_def L2_def t1 s1 s2 m2 Pr [symmetric])
    show ?thesis
      unfolding result leaves using True ih1 by (simp add: b0_def)
  qed
qed

lemma fst_keep_best: "fst (keep_best b l) = max (fst b) (snd l)"
  by (simp add: keep_best_def max_def)

lemma fst_foldl_keep_best:
  "fst (foldl keep_best b L) = Max (insert (fst b) (snd ` set L))"
proof (induction L arbitrary: b)
  case Nil
  then show ?case by simp
next
  case (Cons l L)
  have "Max (insert (max (fst b) (snd l)) (snd ` set L))
      = Max (insert (fst b) (insert (snd l) (snd ` set L)))"
  proof (cases "L = []")
    case True
    then show ?thesis by (simp add: max.commute)
  next
    case False
    then have ne: "snd ` set L \<noteq> {}" by simp
    have fin: "finite (snd ` set L)" by simp
    show ?thesis
      using fin ne by (simp add: max.assoc)
  qed
  then show ?case
    using Cons.IH [of "keep_best b l"] by (simp add: fst_keep_best)
qed

lemma eai_infer_rows:
  fixes self :: eps_inferer and x :: "row list"
  assumes "x \<noteq> []"
  defines "D \<equiv> fst (dfs self x
      (init_search self x, replicate (length x) (replicate (length (estimators (cc self))) False))
      (replicate (length x) 1) 0 (replicate (length x) True))"
  shows "EpsilonApproximationInferer_infer self st0 x
      = Inr (D\<lparr>n_nodes := n_nodes D / of_nat (length x)\<rparr>, best_pred D,
             n_nodes D / of_nat (length x))"
    and "length (best_pred D) = length x"
    and "r < length x \<Longrightarrow> (best_p D ! r, best_pred D ! r)
      = foldl keep_best (0, replicate (length (estimators (cc self))) False)
          (leaves_row self (x ! r) [] 1 0)"
proof -
  define n where "n = length x"
  define cp where "cp = replicate n (replicate (length (estimators (cc self))) False)"
  have D: "D = fst (dfs self x (init_search self x, cp)
      (bool_index (replicate n 1) (replicate n True)) 0 (replicate n True))"
    by (simp add: D_def n_def cp_def bool_index_all)
  show "EpsilonApproximationInferer_infer self st0 x
      = Inr (D\<lparr>n_nodes := n_nodes D / of_nat (length x)\<rparr>, best_pred D,
             n_nodes D / of_nat (length x))"
    using assms(1) by (simp add: EpsilonApproximationInferer_infer_def Let_def split_beta D_def)
  show "length (best_pred D) = length x"
    by (simp add: D_def dfs_lengths init_search_def)
  assume r: "r < length x"
  have "(best_p D ! r, best_pred D ! r)
      = (if replicate n True ! r
         then foldl keep_best (best_p (init_search self x) ! r, best_pred (init_search self x) ! r)
                (leaves_row self (x ! r) (take 0 (cp ! r)) (replicate n 1 ! r) 0)
         else (best_p (init_search self x) ! r, best_pred (init_search self x) ! r))"
    unfolding D
    by (rule dfs_best_fold [where n = n]) (simp_all add: n_def cp_def init_search_def r)
  then show "(best_p D ! r, best_pred D ! r)
      = foldl keep_best (0, replicate (length (estimators (cc self))) False)
          (leaves_row self (x ! r) [] 1 0)"
    using r by (simp add: n_def init_search_def)
qed

text \<open>
  C9.  For arrays of the batch's length with rows of the chain's depth, a level \<open>i\<close> up
  to the depth and a row \<open>r\<close> of the batch, where \<open>p ! r\<close> is the row's accumulated score
  and \<open>cur_p = p[mask]\<close>: the search starts with best score 0 and the all-False best
  prediction; at a leaf the row's best path is replaced by the completed path exactly
  when the row is selected and its score is strictly greater than its best score, and
  is left as it is otherwise; over a call of \<open>__dfs\<close> the row's best score does not
  decrease, its best prediction changes only when the best score strictly increases,
  and the best score and path after the call are the result of applying that leaf
  update to the complete paths the call visits for the row, in order.  \<open>_infer\<close>
  returns the best prediction that the search from the root leaves; for each row that
  is the last strictly improving complete path visited, starting from score 0 and the
  all-False path, and its score is the largest score visited (or 0).
\<close>

theorem best_path_kept:
  fixes self :: eps_inferer and x :: "row list"
  assumes "length msk = length x" "length p = length x" "length cur_pred = length x"
    and "length (best_p st) = length x" "length (best_pred st) = length x"
    and "\<forall>q<length x. length (cur_pred ! q) = length (estimators (cc self))"
    and "i \<le> length (estimators (cc self))" and "r < length x"
  defines "D \<equiv> fst (dfs self x (st, cur_pred) (bool_index p msk) i msk)"
    and "F \<equiv> fst (dfs self x
      (init_search self x, replicate (length x) (replicate (length (estimators (cc self))) False))
      (replicate (length x) 1) 0 (replicate (length x) True))"
  shows "best_p (init_search self x) ! r = 0
    \<and> best_pred (init_search self x) ! r = replicate (length (estimators (cc self))) False
    \<and> (i = length (estimators (cc self)) \<longrightarrow>
         (if msk ! r \<and> best_p st ! r < p ! r
          then best_p D ! r = p ! r \<and> best_pred D ! r = cur_pred ! r
          else best_p D ! r = best_p st ! r \<and> best_pred D ! r = best_pred st ! r))
    \<and> best_p st ! r \<le> best_p D ! r
    \<and> (best_p D ! r = best_p st ! r \<longrightarrow> best_pred D ! r = best_pred st ! r)
    \<and> (best_p D ! r, best_pred D ! r)
        = (if msk ! r
           then foldl keep_best (best_p st ! r, best_pred st ! r)
                  (leaves_row self (x ! r) (take i (cur_pred ! r)) (p ! r) i)
           else (best_p st ! r, best_pred st ! r))
    \<and> EpsilonApproximationInferer_infer self st0 x
        = Inr (F\<lparr>n_nodes := n_nodes F / of_nat (length x)\<rparr>, best_pred F,
               n_nodes F / of_nat (length x))
    \<and> (best_p F ! r, best_pred F ! r)
        = foldl keep_best (0, replicate (length (estimators (cc self))) False)
            (leaves_row self (x ! r) [] 1 0)
    \<and> best_p F ! r = Max (insert 0 (snd ` set (leaves_row self (x ! r) [] 1 0)))"
proof -
  have ne: "x \<noteq> []"
    using assms(8) by auto
  have init: "best_p (init_search self x) ! r = 0
      \<and> best_pred (init_search self x) ! r = replicate (length (estimators (cc self))) False"
    using assms(8) by (simp add: init_search_def)
  have leaf: "if msk ! r \<and> best_p st ! r < p ! r
      then best_p D ! r = p ! r \<and> best_pred D ! r = cur_pred ! r
      else best_p D ! r = best_p st ! r \<and> best_pred D ! r = best_pred st ! r"
    if i: "i = length (estimators (cc self))"
    unfolding D_def dfs_leaf_full [OF i assms(1,2,4,5,3)]
    using assms(1-5,8) by (simp add: Let_def nth_merge)
  have mono: "best_p st ! r \<le> best_p D ! r
    \<and> (best_p D ! r = best_p st ! r \<longrightarrow> best_pred D ! r = best_pred st ! r)"
    unfolding D_def by (rule dfs_best_monotone [OF assms(1,2) refl assms(3,4,5,8)])
  have fold: "(best_p D ! r, best_pred D ! r)
        = (if msk ! r
           then foldl keep_best (best_p st ! r, best_pred st ! r)
                  (leaves_row self (x ! r) (take i (cur_pred ! r)) (p ! r) i)
           else (best_p st ! r, best_pred st ! r))"
    unfolding D_def by (rule dfs_best_fold [OF assms(1,2) refl assms(3,4,5,6,7,8)])
  have ret: "EpsilonApproximationInferer_infer self st0 x
        = Inr (F\<lparr>n_nodes := n_nodes F / of_nat (length x)\<rparr>, best_pred F,
               n_nodes F / of_nat (length x))"
    unfolding F_def by (rule eai_infer_rows(1) [OF ne])
  have final: "(best_p F ! r, best_pred F ! r)
        = foldl keep_best (0, replicate (length (estimators (cc self))) False)
            (leaves_row self (x ! r) [] 1 0)"
    unfolding F_def by (rule eai_infer_rows(3) [OF ne assms(8)])
  have "best_p F ! r = fst (best_p F ! r, best_pred F ! r)"
    by simp
  also have "\<dots> = Max (insert 0 (snd ` set (leaves_row self (x ! r) [] 1 0)))"
    unfolding final by (simp add: fst_foldl_keep_best)
  finally have best: "best_p F ! r = Max (insert 0 (snd ` set (leaves_row self (x ! r) [] 1 0)))" .
  show ?thesis
    using init leaf mono fold ret final best by blast
qed

theorem best_path_kept_witness:
  "best_p (init_search (scenario ''exact_match'' 0) [[0]]) ! 0 = 0
   \<and> best_pred (init_search (scenario ''exact_match'' 0) [[0]]) ! 0 = [False, False, False]
   \<and> best_p (fst (dfs (scenario ''exact_match'' 0) [[0]]
        (\<lparr>best_pred = [[False, False, False]], best_p = [1 / 5], n_nodes = 0\<rparr>, [[True, False, True]])
        [1 / 4] 3 [True])) ! 0 = 1 / 4
   \<and> best_pred (fst (dfs (scenario ''exact_match'' 0) [[0]]
        (\<lparr>best_pred = [[False, False, False]], best_p = [1 / 5], n_nodes = 0\<rparr>, [[True, False, True]])
        [1 / 4] 3 [True])) ! 0 = [True, False, True]"
  using best_path_kept [where msk = "[True]" and x = "[[0]]" and p = "[1 / 4]"
      and cur_pred = "[[True, False, True]]"
      and st = "\<lparr>best_pred = [[False, False, False]], best_p = [1 / 5], n_nodes = 0\<rparr>"
      and r = 0 and self = "scenario ''exact_match'' 0" and i = 3 and ?st0.0 = fresh]
  by (simp add: scenario_def)

section \<open>Determinism\<close>

lemma fix_order_from_eq:
  assumes "distinct (order (cc self))" "set (order (cc self)) = {..<length (order (cc self))}"
    and "length uninit = length (order (cc self))"
  shows "fix_order_from uninit self pred = fix_order self pred"
  by (simp add: fix_order_from_def fix_order_def inv_order_from_init [OF assms])

lemma fix_order_row:
  "r < length pred \<Longrightarrow> [fix_order self pred ! r] = fix_order self [pred ! r]"
  by (simp add: fix_order_def fix_order_from_def Let_def)

lemma np_argmax_tie:
  "\<forall>pr\<in>set P. fst pr = snd pr \<Longrightarrow> np_argmax P = replicate (length P) False"
  by (induction P) (auto simp: np_argmax_def)

lemma np_argmin_tie:
  "\<forall>pr\<in>set P. fst pr = snd pr \<Longrightarrow> np_argmin P = replicate (length P) False"
  by (induction P) (auto simp: np_argmin_def)

lemma set_bool_index: "set (bool_index xs ms) \<subseteq> set xs"
  by (induction xs ms rule: bool_index.induct) auto

lemma dfs_tie:
  assumes i: "i < length (estimators (cc self))"
    and tie: "\<forall>pr\<in>set (map (estimators (cc self) ! i)
                 (hstack (bool_index x msk) (bool_index cur_pred msk) i)). fst pr = snd pr"
  shows "dfs self x (st, cur_pred) cur_p i msk =
     (let proba = map (estimators (cc self) ! i) (hstack (bool_index x msk) (bool_index cur_pred msk) i);
          r1 = dfs self x (st\<lparr>n_nodes := n_nodes st + of_nat (count_nonzero msk)\<rparr>,
                           col_assign cur_pred msk i (replicate (length proba) False))
                 (new_score self cur_p (np_max proba)) (Suc i) msk;
          proba_min = new_score self cur_p (np_min proba);
          condition = map (\<lambda>q. epsilon self \<le> q) proba_min;
          new_msk = bool_assign msk msk condition
      in if 0 < count_nonzero new_msk
         then dfs self x (fst r1, col_assign (snd r1) new_msk i
                           (replicate (length (bool_index proba condition)) False))
                (bool_index proba_min condition) (Suc i) new_msk
         else r1)"
proof -
  define proba where
    "proba = map (estimators (cc self) ! i) (hstack (bool_index x msk) (bool_index cur_pred msk) i)"
  have t: "\<forall>pr\<in>set proba. fst pr = snd pr"
    using tie by (simp only: proba_def)
  have a: "np_argmax proba = replicate (length proba) False"
    by (rule np_argmax_tie [OF t])
  have b: "np_argmin (bool_index proba c) = replicate (length (bool_index proba c)) False" for c
    using t set_bool_index [of proba c] by (intro np_argmin_tie) blast
  show ?thesis
    unfolding dfs_node [OF i] Let_def proba_def [symmetric] a b ..
qed

lemma infer_row_independent:
  fixes self :: eps_inferer and x :: "row list"
  assumes r: "r < length x"
  defines "path \<equiv> snd (foldl keep_best (0, replicate (length (estimators (cc self))) False)
                          (leaves_row self (x ! r) [] 1 0))"
  shows "\<exists>s P n w s1 w1.
      infer EpsilonApproximationInferer_infer self obj x = Inr (s, [Matrix P, Float n, Float w])
    \<and> infer EpsilonApproximationInferer_infer self obj' [x ! r]
        = Inr (s1, [Matrix [P ! r], Float (of_nat (nodes_row self (x ! r) [] 1 0)), Float w1])
    \<and> [P ! r] = fix_order self [path]
    \<and> n = of_nat (\<Sum>q<length x. nodes_row self (x ! q) [] 1 0) / of_nat (length x)"
proof -
  define F where "F = fst (dfs self x
      (init_search self x, replicate (length x) (replicate (length (estimators (cc self))) False))
      (replicate (length x) 1) 0 (replicate (length x) True))"
  define G where "G = fst (dfs self [x ! r]
      (init_search self [x ! r],
       replicate (length [x ! r]) (replicate (length (estimators (cc self))) False))
      (replicate (length [x ! r]) 1) 0 (replicate (length [x ! r]) True))"
  have ne: "x \<noteq> []" using r by auto
  have ne1: "[x ! r] \<noteq> []" by simp
  have eF: "EpsilonApproximationInferer_infer self obj x
      = Inr (F\<lparr>n_nodes := n_nodes F / of_nat (length x)\<rparr>, best_pred F,
             n_nodes F / of_nat (length x))"
    unfolding F_def by (rule eai_infer_rows(1) [OF ne])
  have lF: "length (best_pred F) = length x"
    unfolding F_def by (rule eai_infer_rows(2) [OF ne])
  have pF: "best_pred F ! r = path"
    using eai_infer_rows(3) [OF ne r, of self] by (simp add: F_def path_def prod_eq_iff)
  obtain s2 p2 where cnt: "EpsilonApproximationInferer_infer self obj x
      = Inr (s2, p2, of_nat (\<Sum>q<length x. nodes_row self (x ! q) [] 1 0) / of_nat (length x))"
    using infer_node_count [OF ne] by blast
  have nF: "n_nodes F / of_nat (length x)
      = of_nat (\<Sum>q<length x. nodes_row self (x ! q) [] 1 0) / of_nat (length x)"
    using eF cnt ne by auto
  have eG: "EpsilonApproximationInferer_infer self obj' [x ! r]
      = Inr (G\<lparr>n_nodes := n_nodes G / of_nat (length [x ! r])\<rparr>, best_pred G,
             n_nodes G / of_nat (length [x ! r]))"
    unfolding G_def by (rule eai_infer_rows(1) [OF ne1])
  have lG: "length (best_pred G) = 1"
    using eai_infer_rows(2) [OF ne1, of self] by (simp add: G_def)
  have "best_pred G ! 0 = path"
    using eai_infer_rows(3) [OF ne1, of 0 self] by (simp add: G_def path_def prod_eq_iff)
  with lG have pG: "best_pred G = [path]"
    by (cases "best_pred G") simp_all
  obtain s3 p3 where cnt1: "EpsilonApproximationInferer_infer self obj' [x ! r]
      = Inr (s3, p3, of_nat (\<Sum>q<length [x ! r]. nodes_row self ([x ! r] ! q) [] 1 0)
                       / of_nat (length [x ! r]))"
    using infer_node_count [OF ne1] by blast
  have nG: "n_nodes G / of_nat (length [x ! r]) = of_nat (nodes_row self (x ! r) [] 1 0)"
    using eG cnt1 by simp
  have row: "[fix_order self (best_pred F) ! r] = fix_order self [path]"
    using fix_order_row [of r "best_pred F" self] r lF pF by simp
  show ?thesis
    unfolding infer_def eF eG nG pG
    using row nF by simp
qed

text \<open>
  C10.  For a chain whose \<open>order_\<close> is a permutation of \<open>range(d)\<close>: the result of
  \<open>infer\<close> (predictions, node count, reward and the state left in the object) does
  not depend on the state the object was in before the call, and \<open>__fix_order\<close> does
  not depend on the content of the uninitialised array.  The result for a row does not
  depend on the rest of the batch: the prediction and the node count of row \<open>r\<close> are
  those \<open>infer\<close> returns for that row alone, its prediction is the reordered last
  strictly improving path of its own search, and the batch's node count is the mean of
  the rows' counts.  At a node of \<open>__dfs\<close> where the two probabilities of every selected
  row are equal, the column of the always-expanded branch is set to label 0 and so is
  the column of the conditionally expanded branch.
\<close>

theorem infer_deterministic:
  fixes self :: eps_inferer and x :: "row list"
  assumes "distinct (order (cc self))" "set (order (cc self)) = {..<length (order (cc self))}"
    and "length uninit = length (order (cc self))"
    and "r < length x"
    and "i < length (estimators (cc self))"
    and "\<forall>pr\<in>set (map (estimators (cc self) ! i)
                 (hstack (bool_index x msk) (bool_index cur_pred msk) i)). fst pr = snd pr"
  shows "infer EpsilonApproximationInferer_infer self obj x
       = infer EpsilonApproximationInferer_infer self obj' x
    \<and> fix_order_from uninit self pred = fix_order self pred
    \<and> (\<exists>s P n w s1 w1.
          infer EpsilonApproximationInferer_infer self obj x = Inr (s, [Matrix P, Float n, Float w])
        \<and> infer EpsilonApproximationInferer_infer self obj' [x ! r]
            = Inr (s1, [Matrix [P ! r], Float (of_nat (nodes_row self (x ! r) [] 1 0)), Float w1])
        \<and> [P ! r] = fix_order self
            [snd (foldl keep_best (0, replicate (length (estimators (cc self))) False)
                    (leaves_row self (x ! r) [] 1 0))]
        \<and> n = of_nat (\<Sum>q<length x. nodes_row self (x ! q) [] 1 0) / of_nat (length x))
    \<and> dfs self x (st, cur_pred) cur_p i msk =
       (let proba = map (estimators (cc self) ! i)
                      (hstack (bool_index x msk) (bool_index cur_pred msk) i);
            r1 = dfs self x (st\<lparr>n_nodes := n_nodes st + of_nat (count_nonzero msk)\<rparr>,
                             col_assign cur_pred msk i (replicate (length proba) False))
                   (new_score self cur_p (np_max proba)) (Suc i) msk;
            proba_min = new_score self cur_p (np_min proba);
            condition = map (\<lambda>q. epsilon self \<le> q) proba_min;
            new_msk = bool_assign msk msk condition
        in if 0 < count_nonzero new_msk
           then dfs self x (fst r1, col_assign (snd r1) new_msk i
                             (replicate (length (bool_index proba condition)) False))
                  (bool_index proba_min condition) (Suc i) new_msk
           else r1)"
proof -
  have a: "infer EpsilonApproximationInferer_infer self obj x
       = infer EpsilonApproximationInferer_infer self obj' x"
    by (simp add: infer_def EpsilonApproximationInferer_infer_def)
  have b: "fix_order_from uninit self pred = fix_order self pred"
    by (rule fix_order_from_eq [OF assms(1,2,3)])
  note c = infer_row_independent [OF assms(4), of self obj obj']
  note d = dfs_tie [OF assms(5,6), of st cur_p]
  show ?thesis
    using a b c d by blast
qed

theorem infer_deterministic_witness:
  "infer EpsilonApproximationInferer_infer (tie_scenario 0) fresh [[0]]
     = infer EpsilonApproximationInferer_infer (tie_scenario 0)
         \<lparr>best_pred = [[True]], best_p = [7], n_nodes = 9\<rparr> [[0]]
   \<and> fix_order_from [5, 8] (tie_scenario 0) [[True, False]]
     = fix_order (tie_scenario 0) [[True, False]]
   \<and> dfs (tie_scenario 0) [[0]] (fresh, [[True, True]]) [1] 0 [True]
     = dfs (tie_scenario 0) [[0]]
         (fst (dfs (tie_scenario 0) [[0]] (fresh\<lparr>n_nodes := 1\<rparr>, [[False, True]])
                 [1 / 2] 1 [True]),
          col_assign
            (snd (dfs (tie_scenario 0) [[0]] (fresh\<lparr>n_nodes := 1\<rparr>, [[False, True]])
                    [1 / 2] 1 [True]))
            [True] 0 [False])
         [1 / 2] 1 [True]"
  using infer_deterministic [where self = "tie_scenario 0" and x = "[[0]]" and r = 0 and i = 0
      and uninit = "[5, 8]" and msk = "[True]" and cur_pred = "[[True, True]]"
      and obj = fresh and obj' = "\<lparr>best_pred = [[True]], best_p = [7], n_nodes = 9\<rparr>"
      and pred = "[[True, False]]" and st = fresh and cur_p = "[1]"]
  by (simp add: tie_scenario_def tie0_def hstack_def lessThan_Suc numeral_2_eq_2 insert_commute
      fresh_def col_assign_def count_nonzero_def new_score_def np_max_def np_min_def Let_def)

end
